theory Spec2Isabelle
  imports Complex_Main "HOL-Library.Word"
begin

unbundle bit_operations_syntax

section \<open>Data model of the scenario engine\<close>

text \<open>
  The C sources name their static helpers with a leading underscore
  (\<open>_find_action_type\<close>, \<open>_parse\<close>, ...). Isabelle names start with a letter, so the
  underscore is dropped and the rest of the name is kept.

  \<open>GstClockTime\<close> is \<open>guint64\<close>; \<open>GST_CLOCK_TIME_NONE\<close> is the all-ones value.
\<close>

type_synonym GstClockTime = "64 word"

definition GST_CLOCK_TIME_NONE :: GstClockTime where
  "GST_CLOCK_TIME_NONE = - 1"

definition GST_CLOCK_TIME_IS_VALID :: "GstClockTime \<Rightarrow> bool" where
  "GST_CLOCK_TIME_IS_VALID t = (t \<noteq> GST_CLOCK_TIME_NONE)"

text \<open>
  The flags of an action type are a bit set in C; the header that gives the bits their
  values is not part of the sources, so the set of flag names is kept and
  \<open>flags & F\<close> is membership of \<open>F\<close>.
\<close>

datatype GstValidateActionTypeFlags =
    GST_VALIDATE_ACTION_TYPE_CONFIG
  | GST_VALIDATE_ACTION_TYPE_ASYNC
  | GST_VALIDATE_ACTION_TYPE_INTERLACED
  | GST_VALIDATE_ACTION_TYPE_CAN_EXECUTE_ON_ADDITION
  | GST_VALIDATE_ACTION_TYPE_NEEDS_CLOCK
  | GST_VALIDATE_ACTION_TYPE_NO_EXECUTION_NOT_FATAL
  | GST_VALIDATE_ACTION_TYPE_CAN_BE_OPTIONAL
  | GST_VALIDATE_ACTION_TYPE_DOESNT_NEED_PIPELINE
  | GST_VALIDATE_ACTION_TYPE_HANDLED_IN_CONFIG

text \<open>The states of an action (\<open>GstValidateExecuteActionReturn\<close>).\<close>

datatype GstValidateExecuteActionReturn =
    GST_VALIDATE_EXECUTE_ACTION_ERROR
  | GST_VALIDATE_EXECUTE_ACTION_OK
  | GST_VALIDATE_EXECUTE_ACTION_ASYNC
  | GST_VALIDATE_EXECUTE_ACTION_INTERLACED
  | GST_VALIDATE_EXECUTE_ACTION_ERROR_REPORTED
  | GST_VALIDATE_EXECUTE_ACTION_IN_PROGRESS
  | GST_VALIDATE_EXECUTE_ACTION_NONE

text \<open>
  An action type. \<open>tname\<close> is the C field \<open>name\<close>; \<open>overriden_type\<close> is the pointer
  to the type this one replaced, \<open>None\<close> for \<open>NULL\<close>. The handler pointers
  (\<open>prepare\<close>, \<open>execute\<close>) are outside the model.
\<close>

datatype GstValidateActionType = ActionType
  (tname: string)
  (implementer_namespace: string)
  (rank: int)
  (flags: "GstValidateActionTypeFlags set")
  (description: string)
  (overriden_type: "GstValidateActionType option")

text \<open>
  An action, public fields and private ones together. \<open>addr\<close> stands for the identity of
  the heap object, which the C code compares when it searches a list for a pointer.
\<close>

record GstValidateAction =
  addr :: nat
  type :: string
  name :: string
  playback_time :: GstClockTime
  repeat :: int
  action_number :: nat
  state :: GstValidateExecuteActionReturn
  printed :: bool
  executing_last_subaction :: bool
  optional :: bool
  execution_time :: GstClockTime
  timeout :: GstClockTime
  needs_playback_parsing :: bool
  pending_set_done :: bool

section \<open>The action type registry\<close>

text \<open>\<open>_find_action_type\<close>: the first registered type of that name.\<close>

fun find_action_type :: "GstValidateActionType list \<Rightarrow> string \<Rightarrow> GstValidateActionType option" where
  "find_action_type [] type_name = None"
| "find_action_type (atype # tmp) type_name =
     (if tname atype = type_name then Some atype else find_action_type tmp type_name)"

text \<open>
  \<open>gst_validate_register_action_type_dynamic\<close>, on the global list \<open>action_types\<close>,
  which is passed in and returned with the type the C function returns. \<open>plugin\<close> is the
  name of the registering plugin, \<open>None\<close> for \<open>NULL\<close>. \<open>g_list_remove\<close> drops the
  first link holding the pointer found by \<open>_find_action_type\<close>; that link is the first
  element equal to it. The copy of the parameter array and the bookkeeping on the plugin
  object do not touch the list and are left out.
\<close>

definition gst_validate_register_action_type_dynamic ::
  "GstValidateActionType list \<Rightarrow> string option \<Rightarrow> string \<Rightarrow> int \<Rightarrow> string \<Rightarrow>
   GstValidateActionTypeFlags set \<Rightarrow> GstValidateActionType \<times> GstValidateActionType list" where
  "gst_validate_register_action_type_dynamic action_types plugin type_name rnk descr flgs =
     (let new_type = ActionType type_name (case plugin of Some p \<Rightarrow> p | None \<Rightarrow> ''none'')
                       rnk flgs descr None
      in case find_action_type action_types type_name of
           Some tmptype \<Rightarrow>
             if rank tmptype \<le> rnk
             then (let t = ActionType type_name (implementer_namespace new_type) rnk flgs descr
                             (Some tmptype)
                   in (t, remove1 tmptype action_types @ [t]))
             else (tmptype, action_types)
         | None \<Rightarrow> (new_type, action_types @ [new_type]))"

section \<open>The scenario\<close>

text \<open>The three queues of a scenario; the other private fields are added as the
  functions that read them are modelled.\<close>

record GstValidateScenarioQueues =
  actions :: "GstValidateAction list"
  interlaced_actions :: "GstValidateAction list"
  on_addition_actions :: "GstValidateAction list"

text \<open>What a function does to the outside: a report, the \<open>done\<close> signal.\<close>

datatype issue =
    SCENARIO_ACTION_EXECUTION_ERROR
  | SCENARIO_NOT_ENDED
  | QUERY_POSITION_SUPERIOR_DURATION
  | QUERY_POSITION_OUT_OF_SEGMENT
  | EVENT_SEEK_RESULT_POSITION_WRONG

datatype event =
    Report issue
  | Signal_DONE
  | Add_execute_actions_gsource
  | Execute_action string

text \<open>\<open>actions_list_is_done\<close>: no action of the list is non-optional.\<close>

fun actions_list_is_done :: "('a GstValidateAction_scheme) list \<Rightarrow> bool" where
  "actions_list_is_done [] = True"
| "actions_list_is_done (action # l) =
     (if \<not> optional action then False else actions_list_is_done l)"

text \<open>\<open>_check_scenario_is_done\<close>: emits the signal \<open>done\<close> or nothing.\<close>

definition check_scenario_is_done :: "'a GstValidateScenarioQueues_scheme \<Rightarrow> event list" where
  "check_scenario_is_done scenario =
     (if actions_list_is_done (actions scenario) \<and>
         actions_list_is_done (interlaced_actions scenario) \<and>
         actions_list_is_done (on_addition_actions scenario)
      then [Signal_DONE] else [])"

section \<open>The expression evaluator\<close>

text \<open>
  The evaluator computes on C doubles and calls \<open>pow\<close>, \<open>fabs\<close> and \<open>sscanf\<close>. None of
  these belongs to the sources, so the arithmetic is a parameter: a record of the
  operations on a type \<open>'v\<close> of values. What is proved for every such record holds for
  IEEE doubles, rounding, infinities and NaN included.
\<close>

record 'v double_ops =
  of_int64 :: "int \<Rightarrow> 'v"
  d_add :: "'v \<Rightarrow> 'v \<Rightarrow> 'v"
  d_sub :: "'v \<Rightarrow> 'v \<Rightarrow> 'v"
  d_mul :: "'v \<Rightarrow> 'v \<Rightarrow> 'v"
  d_div :: "'v \<Rightarrow> 'v \<Rightarrow> 'v"
  d_pow :: "'v \<Rightarrow> 'v \<Rightarrow> 'v"
  d_neg :: "'v \<Rightarrow> 'v"
  d_fabs :: "'v \<Rightarrow> 'v"
  d_lt :: "'v \<Rightarrow> 'v \<Rightarrow> bool"
  d_le :: "'v \<Rightarrow> 'v \<Rightarrow> bool"
  d_eq :: "'v \<Rightarrow> 'v \<Rightarrow> bool"
  PARSER_BOOLEAN_EQUALITY_THRESHOLD :: 'v
  sscanf_lf :: "string \<Rightarrow> 'v option"
  to_guint64 :: "'v \<Rightarrow> 64 word"
  G_MAXDOUBLE :: 'v

text \<open>The macros \<open>MIN\<close> and \<open>MAX\<close> of GLib.\<close>

definition MIN_macro :: "'v double_ops \<Rightarrow> 'v \<Rightarrow> 'v \<Rightarrow> 'v" where
  "MIN_macro A a b = (if d_lt A a b then a else b)"

definition MAX_macro :: "'v double_ops \<Rightarrow> 'v \<Rightarrow> 'v \<Rightarrow> 'v" where
  "MAX_macro A a b = (if d_lt A b a then a else b)"

text \<open>\<open>c ? 1.0 : 0.0\<close>\<close>

definition bool_val :: "'v double_ops \<Rightarrow> bool \<Rightarrow> 'v" where
  "bool_val A c = (if c then of_int64 A 1 else of_int64 A 0)"

datatype parse_error =
    Read_past_end
  | Failed_to_read_real_number
  | Unknown_operation
  | Expected_eq
  | Expected_amp
  | Expected_bar
  | Failed_to_reach_end
  | Unknown_builtin
  | Expected_rparen_builtin
  | Could_not_look_up string
  | Expected_rparen
  | Unexpected_bang
  | Token_overflow

text \<open>
  \<open>isdigit\<close> and \<open>isalpha\<close> in the C locale. \<open>NUL\<close> is the terminating byte, which
  belongs to the buffer the parser reads: \<open>_init\<close> sets \<open>len = strlen (str) + 1\<close>.
\<close>

definition NUL :: char where
  "NUL = CHR 0x00"

definition isdigit :: "char \<Rightarrow> bool" where
  "isdigit c = (c \<in> set ''0123456789'')"

definition isalpha :: "char \<Rightarrow> bool" where
  "isalpha c = (c \<in> set ''abcdefghijklmnopqrstuvwxyzABCDEFGHIJKLMNOPQRSTUVWXYZ'')"

text \<open>
  The parser state is \<open>str\<close>, \<open>len\<close> and \<open>pos\<close>; the model keeps the bytes not yet read,
  \<open>str[pos .. len)\<close>, as \<open>rest\<close>. \<open>_peek\<close> and \<open>_next\<close> fail with
  \<open>Read_past_end\<close> on the empty rest, and \<open>pos < len - 1\<close> is \<open>1 < length rest\<close>.

  A result \<open>Some (Inl e)\<close> says that \<open>_error\<close> was called (the \<open>longjmp\<close>),
  \<open>Some (Inr (v, rest))\<close> that the function returned \<open>v\<close> and left \<open>rest\<close> unread;
  \<open>None\<close> is used further down, where the calls are counted.
\<close>

type_synonym 'a result = "(parse_error + 'a \<times> string) option"

definition failed :: "parse_error \<Rightarrow> 'a result" where
  "failed e = Some (Inl e)"

definition returns :: "'a \<Rightarrow> string \<Rightarrow> 'a result" where
  "returns v rest = Some (Inr (v, rest))"

definition then_read :: "'a result \<Rightarrow> ('a \<Rightarrow> string \<Rightarrow> 'b result) \<Rightarrow> 'b result" where
  "then_read m f =
     (case m of None \<Rightarrow> None | Some (Inl e) \<Rightarrow> Some (Inl e) | Some (Inr (v, rest)) \<Rightarrow> f v rest)"

text \<open>\<open>while (isdigit (_peek (parser))) token[pos++] = _next (parser);\<close>\<close>

fun read_digits :: "string \<Rightarrow> string \<Rightarrow> string result" where
  "read_digits token [] = failed Read_past_end"
| "read_digits token (c # cs) =
     (if isdigit c then read_digits (token @ [c]) cs else returns token (c # cs))"

text \<open>\<open>c = _peek (parser); if (P (c)) token[pos++] = _next (parser);\<close>\<close>

definition opt_next :: "(char \<Rightarrow> bool) \<Rightarrow> string \<Rightarrow> string \<Rightarrow> string result" where
  "opt_next P token rest =
     (case rest of [] \<Rightarrow> failed Read_past_end
      | c # cs \<Rightarrow> if P c then returns (token @ [c]) cs else returns token rest)"

definition is_sign :: "char \<Rightarrow> bool" where
  "is_sign c = (c = CHR ''+'' \<or> c = CHR ''-'')"

text \<open>
  \<open>c = _peek (parser); if (c == 'e' || c == 'E') { token[pos++] = _next (parser);
  c = _peek (parser); if (c == '+' || c == '-') token[pos++] = _next (parser); }\<close>
\<close>

definition exponent_mark :: "string \<Rightarrow> string \<Rightarrow> string result" where
  "exponent_mark token rest =
     (case rest of [] \<Rightarrow> failed Read_past_end
      | c # cs \<Rightarrow>
          if c = CHR ''e'' \<or> c = CHR ''E'' then opt_next is_sign (token @ [c]) cs
          else returns token rest)"

text \<open>
  \<open>_read_double\<close>, statement by statement. The token buffer has
  \<open>PARSER_MAX_TOKEN_SIZE = 256\<close> bytes; a token that does not fit with its terminator is
  a write past the buffer, \<open>Token_overflow\<close>. \<open>sscanf\<close> is the one of the arithmetic.
\<close>

definition read_double :: "'v double_ops \<Rightarrow> string \<Rightarrow> 'v result" where
  "read_double A rest =
     then_read (opt_next is_sign [] rest) (\<lambda>token rest.
     then_read (read_digits token rest) (\<lambda>token rest.
     then_read (opt_next (\<lambda>c. c = CHR ''.'') token rest) (\<lambda>token rest.
     then_read (read_digits token rest) (\<lambda>token rest.
     then_read (exponent_mark token rest) (\<lambda>token rest.
     then_read (read_digits token rest) (\<lambda>token rest.
       if 256 \<le> length token then failed Token_overflow
       else if token = [] then failed Failed_to_read_real_number
       else (case sscanf_lf A token of
               None \<Rightarrow> failed Failed_to_read_real_number
             | Some val \<Rightarrow> returns val rest)))))))"

text \<open>
  The identifier loop of \<open>_read_builtin\<close>:
  \<open>while (isalpha (c) || isdigit (c) || c == '_' || c == '$') { token[pos++] = _next; c = _peek; }\<close>
\<close>

definition isident :: "char \<Rightarrow> bool" where
  "isident c = (isalpha c \<or> isdigit c \<or> c = CHR ''_'' \<or> c = CHR ''$'')"

fun read_ident :: "string \<Rightarrow> string \<Rightarrow> string result" where
  "read_ident token [] = failed Read_past_end"
| "read_ident token (c # cs) =
     (if isident c then read_ident (token @ [c]) cs else returns token (c # cs))"

text \<open>
  The readers call each other recursively: \<open>_read_parenthesis\<close> calls
  \<open>_read_boolean_or\<close>, \<open>_read_power\<close> calls itself. Each C function is a definition
  below that takes \<open>call\<close>, through which it calls the others: \<open>call l rest\<close> is a
  call of the C function named by the level \<open>l\<close> on the input \<open>rest\<close>. A
  \<open>while\<close> loop is a level of its own, which carries the locals of the loop
  (\<open>TERM_LOOP v0\<close>, ..., \<open>POWER_LOOP v0 s\<close>) and calls itself for the next iteration.
  A result \<open>None\<close> says that the counter of nested calls ran out (see \<open>reader\<close>).
\<close>

datatype 'v level =
    READ_TERM | TERM_LOOP 'v
  | READ_EXPR | EXPR_LOOP 'v
  | READ_BOOLEAN_COMPARISON
  | READ_BOOLEAN_EQUALITY
  | READ_BOOLEAN_AND | AND_LOOP 'v
  | READ_BOOLEAN_OR | OR_LOOP 'v
  | READ_ARGUMENT
  | READ_BUILTIN
  | READ_PARENTHESIS
  | READ_UNARY
  | READ_POWER | POWER_LOOP 'v 'v

type_synonym 'v call = "'v level \<Rightarrow> string \<Rightarrow> 'v result"

text \<open>\<open>_read_term\<close> and its loop.\<close>

definition read_term :: "'v call \<Rightarrow> string \<Rightarrow> 'v result" where
  "read_term call rest =
     then_read (call READ_POWER rest) (\<lambda>v0 rest. call (TERM_LOOP v0) rest)"

definition term_loop :: "'v call \<Rightarrow> 'v double_ops \<Rightarrow> 'v \<Rightarrow> string \<Rightarrow> 'v result" where
  "term_loop call A v0 rest =
     (case rest of [] \<Rightarrow> failed Read_past_end | c # cs \<Rightarrow>
        if c = CHR ''*'' then
          then_read (call READ_POWER cs) (\<lambda>v1 rest. call (TERM_LOOP (d_mul A v0 v1)) rest)
        else if c = CHR ''/'' then
          then_read (call READ_POWER cs) (\<lambda>v1 rest. call (TERM_LOOP (d_div A v0 v1)) rest)
        else returns v0 rest)"

text \<open>\<open>_read_expr\<close>: the optional sign in front of the first term, then the loop.\<close>

definition read_expr :: "'v call \<Rightarrow> 'v double_ops \<Rightarrow> string \<Rightarrow> 'v result" where
  "read_expr call A rest =
     (case rest of [] \<Rightarrow> failed Read_past_end | c # cs \<Rightarrow>
        if c = CHR ''+'' then
          then_read (call READ_TERM cs)
            (\<lambda>v1 rest. call (EXPR_LOOP (d_add A (of_int64 A 0) v1)) rest)
        else if c = CHR ''-'' then
          then_read (call READ_TERM cs)
            (\<lambda>v1 rest. call (EXPR_LOOP (d_sub A (of_int64 A 0) v1)) rest)
        else
          then_read (call READ_TERM rest) (\<lambda>v0 rest. call (EXPR_LOOP v0) rest))"

definition expr_loop :: "'v call \<Rightarrow> 'v double_ops \<Rightarrow> 'v \<Rightarrow> string \<Rightarrow> 'v result" where
  "expr_loop call A v0 rest =
     (case rest of [] \<Rightarrow> failed Read_past_end | c # cs \<Rightarrow>
        if c = CHR ''+'' then
          then_read (call READ_TERM cs) (\<lambda>v1 rest. call (EXPR_LOOP (d_add A v0 v1)) rest)
        else if c = CHR ''-'' then
          then_read (call READ_TERM cs) (\<lambda>v1 rest. call (EXPR_LOOP (d_sub A v0 v1)) rest)
        else returns v0 rest)"

text \<open>
  \<open>_read_boolean_comparison\<close>. \<open>oper\<close> is \<open><\<close>, \<open>>\<close>, \<open><=\<close> or \<open>>=\<close>, so the final
  \<open>else\<close> of the C function (\<open>Unknown operation!\<close>) is never taken;
  \<open>v0 > v1\<close> is \<open>v1 < v0\<close> and \<open>v0 >= v1\<close> is \<open>v1 <= v0\<close>.
\<close>

definition read_boolean_comparison :: "'v call \<Rightarrow> 'v double_ops \<Rightarrow> string \<Rightarrow> 'v result" where
  "read_boolean_comparison call A rest =
     then_read (call READ_EXPR rest) (\<lambda>v0 rest.
       case rest of [] \<Rightarrow> failed Read_past_end | c # cs \<Rightarrow>
         if c = CHR ''>'' \<or> c = CHR ''<'' then
           (case cs of [] \<Rightarrow> failed Read_past_end | c' # cs' \<Rightarrow>
              then_read (call READ_EXPR (if c' = CHR ''='' then cs' else cs))
                (\<lambda>v1 rest.
                   returns (bool_val A
                     (if c = CHR ''<'' \<and> c' \<noteq> CHR ''='' then d_lt A v0 v1
                      else if c = CHR ''>'' \<and> c' \<noteq> CHR ''='' then d_lt A v1 v0
                      else if c = CHR ''<'' then d_le A v0 v1
                      else d_le A v1 v0)) rest))
         else returns v0 rest)"

text \<open>
  \<open>_read_boolean_equality\<close>. After \<open>!\<close> the C function looks one byte further with
  \<open>_peek_n (parser, 1)\<close>, which fails when that byte is past the buffer.
\<close>

definition read_boolean_equality :: "'v call \<Rightarrow> 'v double_ops \<Rightarrow> string \<Rightarrow> 'v result" where
  "read_boolean_equality call A rest =
     then_read (call READ_BOOLEAN_COMPARISON rest) (\<lambda>v0 rest.
       case rest of [] \<Rightarrow> failed Read_past_end | c # cs \<Rightarrow>
         if c = CHR ''!'' then
           (case cs of [] \<Rightarrow> failed Read_past_end | c' # cs' \<Rightarrow>
              if c' = CHR ''='' then
                then_read (call READ_BOOLEAN_COMPARISON cs')
                  (\<lambda>v1 rest.
                     returns (bool_val A (d_lt A (PARSER_BOOLEAN_EQUALITY_THRESHOLD A)
                                (d_fabs A (d_sub A v0 v1)))) rest)
              else returns v0 rest)
         else if c = CHR ''='' then
           (case cs of [] \<Rightarrow> failed Read_past_end | c' # cs' \<Rightarrow>
              if c' \<noteq> CHR ''='' then failed Expected_eq
              else
                then_read (call READ_BOOLEAN_COMPARISON cs')
                  (\<lambda>v1 rest.
                     returns (bool_val A (d_lt A (d_fabs A (d_sub A v0 v1))
                                (PARSER_BOOLEAN_EQUALITY_THRESHOLD A))) rest))
         else returns v0 rest)"

text \<open>\<open>_read_boolean_and\<close>, \<open>_read_boolean_or\<close> and their loops;
  \<open>fabs (v) >= T\<close> is \<open>T <= fabs (v)\<close>.\<close>

definition read_boolean_and :: "'v call \<Rightarrow> string \<Rightarrow> 'v result" where
  "read_boolean_and call rest =
     then_read (call READ_BOOLEAN_EQUALITY rest) (\<lambda>v0 rest. call (AND_LOOP v0) rest)"

definition and_loop :: "'v call \<Rightarrow> 'v double_ops \<Rightarrow> 'v \<Rightarrow> string \<Rightarrow> 'v result" where
  "and_loop call A v0 rest =
     (case rest of [] \<Rightarrow> failed Read_past_end | c # cs \<Rightarrow>
        if c = CHR ''&'' then
          (case cs of [] \<Rightarrow> failed Read_past_end | c' # cs' \<Rightarrow>
             if c' \<noteq> CHR ''&'' then failed Expected_amp
             else
               then_read (call READ_BOOLEAN_EQUALITY cs')
                 (\<lambda>v1 rest. call (AND_LOOP
                    (bool_val A (d_le A (PARSER_BOOLEAN_EQUALITY_THRESHOLD A) (d_fabs A v0) \<and>
                                 d_le A (PARSER_BOOLEAN_EQUALITY_THRESHOLD A) (d_fabs A v1))))
                    rest))
        else returns v0 rest)"

definition read_boolean_or :: "'v call \<Rightarrow> string \<Rightarrow> 'v result" where
  "read_boolean_or call rest =
     then_read (call READ_BOOLEAN_AND rest) (\<lambda>v0 rest. call (OR_LOOP v0) rest)"

definition or_loop :: "'v call \<Rightarrow> 'v double_ops \<Rightarrow> 'v \<Rightarrow> string \<Rightarrow> 'v result" where
  "or_loop call A v0 rest =
     (case rest of [] \<Rightarrow> failed Read_past_end | c # cs \<Rightarrow>
        if c = CHR ''|'' then
          (case cs of [] \<Rightarrow> failed Read_past_end | c' # cs' \<Rightarrow>
             if c' \<noteq> CHR ''|'' then failed Expected_bar
             else
               then_read (call READ_BOOLEAN_AND cs')
                 (\<lambda>v1 rest. call (OR_LOOP
                    (bool_val A (d_le A (PARSER_BOOLEAN_EQUALITY_THRESHOLD A) (d_fabs A v0) \<or>
                                 d_le A (PARSER_BOOLEAN_EQUALITY_THRESHOLD A) (d_fabs A v1))))
                    rest))
        else returns v0 rest)"

text \<open>\<open>_read_argument\<close>: an expression and the comma after it, when there is one.\<close>

definition read_argument :: "'v call \<Rightarrow> string \<Rightarrow> 'v result" where
  "read_argument call rest =
     then_read (call READ_EXPR rest) (\<lambda>val rest.
       case rest of [] \<Rightarrow> failed Read_past_end | c # cs \<Rightarrow>
         if c = CHR '','' then returns val cs else returns val rest)"

text \<open>
  \<open>_read_builtin\<close>: a call of \<open>min\<close> or \<open>max\<close>, a variable, or a number.
  \<open>variable_func\<close> gives the value of a variable, \<open>None\<close> when the C callback is
  \<open>NULL\<close> or returns \<open>FALSE\<close>. The identifier goes to a 256 byte buffer as the token
  of \<open>_read_double\<close> does.
\<close>

definition read_builtin ::
  "'v call \<Rightarrow> 'v double_ops \<Rightarrow> (string \<Rightarrow> 'v option) \<Rightarrow> string \<Rightarrow> 'v result" where
  "read_builtin call A variable_func rest =
     (case rest of [] \<Rightarrow> failed Read_past_end | c # cs \<Rightarrow>
        if isalpha c \<or> c = CHR ''_'' \<or> c = CHR ''$'' then
          then_read (read_ident [] rest) (\<lambda>token rest.
             if 256 \<le> length token then failed Token_overflow
             else
             (case rest of [] \<Rightarrow> failed Read_past_end | c # cs \<Rightarrow>
                if c = CHR ''('' then
                  then_read
                    (if token = ''min'' then
                       then_read (call READ_ARGUMENT cs) (\<lambda>v0 rest.
                         then_read (call READ_ARGUMENT rest) (\<lambda>v1 rest.
                           returns (MIN_macro A v0 v1) rest))
                     else if token = ''max'' then
                       then_read (call READ_ARGUMENT cs) (\<lambda>v0 rest.
                         then_read (call READ_ARGUMENT rest) (\<lambda>v1 rest.
                           returns (MAX_macro A v0 v1) rest))
                     else failed Unknown_builtin)
                    (\<lambda>v0 rest.
                       case rest of [] \<Rightarrow> failed Read_past_end | c # cs \<Rightarrow>
                         if c \<noteq> CHR '')'' then failed Expected_rparen_builtin
                         else returns v0 cs)
                else
                  (case variable_func token of
                     Some v1 \<Rightarrow> returns v1 rest
                   | None \<Rightarrow> failed (Could_not_look_up token))))
        else read_double A rest)"

text \<open>\<open>_read_parenthesis\<close>: the only place from which the boolean levels are entered.\<close>

definition read_parenthesis :: "'v call \<Rightarrow> string \<Rightarrow> 'v result" where
  "read_parenthesis call rest =
     (case rest of [] \<Rightarrow> failed Read_past_end | c # cs \<Rightarrow>
        if c = CHR ''('' then
          then_read (call READ_BOOLEAN_OR cs) (\<lambda>val rest.
            case rest of [] \<Rightarrow> failed Read_past_end | c # cs \<Rightarrow>
              if c \<noteq> CHR '')'' then failed Expected_rparen else returns val cs)
        else call READ_BUILTIN rest)"

text \<open>\<open>_read_unary\<close>\<close>

definition read_unary :: "'v call \<Rightarrow> 'v double_ops \<Rightarrow> string \<Rightarrow> 'v result" where
  "read_unary call A rest =
     (case rest of [] \<Rightarrow> failed Read_past_end | c # cs \<Rightarrow>
        if c = CHR ''!'' then failed Unexpected_bang
        else if c = CHR ''-'' then
          then_read (call READ_PARENTHESIS cs) (\<lambda>v rest. returns (d_neg A v) rest)
        else if c = CHR ''+'' then call READ_PARENTHESIS cs
        else call READ_PARENTHESIS rest)"

text \<open>
  \<open>_read_power\<close>: \<open>s\<close> starts as \<open>1.0\<close> and stays \<open>-1.0\<close> once a \<open>-\<close> has followed
  a \<open>^\<close>; the exponent is read by \<open>_read_power\<close> itself.
\<close>

definition read_power :: "'v call \<Rightarrow> 'v double_ops \<Rightarrow> string \<Rightarrow> 'v result" where
  "read_power call A rest =
     then_read (call READ_UNARY rest) (\<lambda>v0 rest. call (POWER_LOOP v0 (of_int64 A 1)) rest)"

definition power_loop :: "'v call \<Rightarrow> 'v double_ops \<Rightarrow> 'v \<Rightarrow> 'v \<Rightarrow> string \<Rightarrow> 'v result" where
  "power_loop call A v0 s rest =
     (case rest of [] \<Rightarrow> failed Read_past_end | c # cs \<Rightarrow>
        if c = CHR ''^'' then
          (case cs of [] \<Rightarrow> failed Read_past_end | c' # cs' \<Rightarrow>
             then_read (call READ_POWER (if c' = CHR ''-'' then cs' else cs))
               (\<lambda>v1 rest. call (POWER_LOOP
                  (d_pow A v0 (d_mul A (if c' = CHR ''-'' then of_int64 A (- 1) else s) v1))
                  (if c' = CHR ''-'' then of_int64 A (- 1) else s)) rest))
        else returns v0 rest)"

text \<open>One call of the C function named by \<open>l\<close>.\<close>

definition reader_body ::
  "'v call \<Rightarrow> 'v double_ops \<Rightarrow> (string \<Rightarrow> 'v option) \<Rightarrow> 'v call" where
  "reader_body call A variable_func l rest =
     (case l of
        READ_TERM \<Rightarrow> read_term call rest
      | TERM_LOOP v0 \<Rightarrow> term_loop call A v0 rest
      | READ_EXPR \<Rightarrow> read_expr call A rest
      | EXPR_LOOP v0 \<Rightarrow> expr_loop call A v0 rest
      | READ_BOOLEAN_COMPARISON \<Rightarrow> read_boolean_comparison call A rest
      | READ_BOOLEAN_EQUALITY \<Rightarrow> read_boolean_equality call A rest
      | READ_BOOLEAN_AND \<Rightarrow> read_boolean_and call rest
      | AND_LOOP v0 \<Rightarrow> and_loop call A v0 rest
      | READ_BOOLEAN_OR \<Rightarrow> read_boolean_or call rest
      | OR_LOOP v0 \<Rightarrow> or_loop call A v0 rest
      | READ_ARGUMENT \<Rightarrow> read_argument call rest
      | READ_BUILTIN \<Rightarrow> read_builtin call A variable_func rest
      | READ_PARENTHESIS \<Rightarrow> read_parenthesis call rest
      | READ_UNARY \<Rightarrow> read_unary call A rest
      | READ_POWER \<Rightarrow> read_power call A rest
      | POWER_LOOP v0 s \<Rightarrow> power_loop call A v0 s rest)"

text \<open>
  The readers with at most \<open>n\<close> calls nested in each other: with no call left there is
  no result.
\<close>

primrec reader :: "nat \<Rightarrow> 'v double_ops \<Rightarrow> (string \<Rightarrow> 'v option) \<Rightarrow> 'v call" where
  "reader 0 A variable_func = (\<lambda>l rest. None)"
| "reader (Suc n) A variable_func = reader_body (reader n A variable_func) A variable_func"

text \<open>\<open>_parse\<close>, on the buffer \<open>str[0 .. len)\<close>.\<close>

definition parse ::
  "nat \<Rightarrow> 'v double_ops \<Rightarrow> (string \<Rightarrow> 'v option) \<Rightarrow> string \<Rightarrow> (parse_error + 'v) option" where
  "parse n A variable_func buf =
     (case reader n A variable_func READ_EXPR buf of
        None \<Rightarrow> None
      | Some (Inl e) \<Rightarrow> Some (Inl e)
      | Some (Inr (result, rest)) \<Rightarrow>
          if 1 < length rest then Some (Inl Failed_to_reach_end) else Some (Inr result))"

definition gst_validate_utils_parse_expression ::
  "'v double_ops \<Rightarrow> (string \<Rightarrow> 'v option) \<Rightarrow> string \<Rightarrow> ('v \<times> parse_error option) option" where
  "gst_validate_utils_parse_expression A variable_func expr =
     (let expr_nospace = filter (\<lambda>c. c \<noteq> CHR '' '') expr;
          buf = expr_nospace @ [NUL]
      in case parse (10 * length buf) A variable_func buf of
           None \<Rightarrow> None
         | Some (Inl e) \<Rightarrow> Some (of_int64 A (- 1), Some e)
         | Some (Inr val) \<Rightarrow> Some (val, None))"

section \<open>Structures, pipeline and scenario\<close>

text \<open>\<open>GST_SECOND\<close>, in nanoseconds, and \<open>GST_ROUND_UP_4 (num) = ((num) + 3) & ~3\<close>.\<close>

definition GST_SECOND :: int where
  "GST_SECOND = 1000000000"

definition GST_ROUND_UP_4 :: "64 word \<Rightarrow> 64 word" where
  "GST_ROUND_UP_4 num = (num + 3) AND NOT 3"

text \<open>
  The values a field of a \<open>GstStructure\<close> holds in the functions modelled here, named by
  their \<open>GType\<close>. \<open>GST_TYPE_CLOCK_TIME\<close> is \<open>G_TYPE_UINT64\<close>. A structure is the map from
  its field names to their values: no modelled function depends on the order of the
  fields.
\<close>

datatype 'v GValue =
    G_TYPE_DOUBLE 'v
  | G_TYPE_STRING string
  | G_TYPE_UINT64 "64 word"
  | G_TYPE_UINT "32 word"
  | G_TYPE_INT "32 word"
  | G_TYPE_INT64 "64 word"
  | G_TYPE_BOOLEAN bool

type_synonym 'v GstStructure = "string \<Rightarrow> 'v GValue option"

definition gst_structure_get_double :: "'v GstStructure \<Rightarrow> string \<Rightarrow> 'v option" where
  "gst_structure_get_double s fieldname =
     (case s fieldname of Some (G_TYPE_DOUBLE d) \<Rightarrow> Some d | _ \<Rightarrow> None)"

definition gst_structure_get_string :: "'v GstStructure \<Rightarrow> string \<Rightarrow> string option" where
  "gst_structure_get_string s fieldname =
     (case s fieldname of Some (G_TYPE_STRING str) \<Rightarrow> Some str | _ \<Rightarrow> None)"

text \<open>\<open>GstState\<close> with the values of the C enumeration, which the code compares.\<close>

datatype GstState =
    GST_STATE_VOID_PENDING
  | GST_STATE_NULL
  | GST_STATE_READY
  | GST_STATE_PAUSED
  | GST_STATE_PLAYING


text \<open>
  What the engine asks of the pipeline: its state, the answers to the position, duration
  and segment queries (\<open>None\<close> when the query fails), and the duration in the media
  descriptor of the monitor attached to it (\<open>None\<close> without monitor or descriptor).
\<close>

record 'v GstElement =
  GST_STATE :: GstState
  query_position :: "64 word option"
  query_duration :: "64 word option"
  query_segment_rate :: "'v option"
  media_descriptor_duration :: "64 word option"

text \<open>
  The scenario: the three queues and the private fields that the modelled functions
  read. \<open>pipeline\<close> is the weak reference \<open>ref_pipeline\<close>, \<open>None\<close> once the pipeline is
  gone; \<open>seek_flags_ACCURATE\<close> is \<open>seek_flags & GST_SEEK_FLAG_ACCURATE\<close>;
  \<open>message_type\<close> is \<open>None\<close> for \<open>NULL\<close>. \<open>structures\<close> is the store of the
  structures of the actions: \<open>structures scenario (addr action)\<close> is what
  \<open>action->structure\<close> points to.
\<close>

record 'v GstValidateScenario = GstValidateScenarioQueues +
  pipeline :: "'v GstElement option"
  vars :: "'v GstStructure"
  structures :: "nat \<Rightarrow> 'v GstStructure"
  seek_flags_ACCURATE :: bool
  segment_start :: GstClockTime
  segment_stop :: GstClockTime
  seek_pos_tol :: GstClockTime
  seeked_in_pause :: bool
  message_type :: "string option"
  buffering :: bool
  got_eos :: bool
  changing_state :: bool
  needs_async_done :: bool

text \<open>
  How a run ends when the C function does not return: a \<open>NULL\<close> pointer is read, or
  \<open>g_error\<close> ends the process. \<open>Replacement_with_backslash\<close> is where the model itself
  stops: \<open>g_regex_replace\<close> expands backslash sequences of the replacement text, and the
  sources do not say how.
\<close>

datatype stop =
    NULL_dereference
  | Trying_to_use_undefined_variable string
  | Could_not_parse_playback_time
  | Replacement_with_backslash

section \<open>Variables in strings\<close>

text \<open>
  \<open>_update_well_known_vars\<close>. A failed duration query leaves \<open>GST_CLOCK_TIME_NONE\<close> in
  \<open>duration\<close>, which is what \<open>gst_element_query_duration\<close> stores before it asks.
\<close>

definition update_well_known_vars ::
  "'v double_ops \<Rightarrow> 'v GstValidateScenario \<Rightarrow> 'v GstValidateScenario" where
  "update_well_known_vars A scenario =
     (let vars1 = (vars scenario) (''position'' := None, ''duration'' := None)
      in case pipeline scenario of
           None \<Rightarrow> scenario \<lparr>vars := vars1\<rparr>
         | Some p \<Rightarrow>
             (let queried = (case query_duration p of Some d \<Rightarrow> d | None \<Rightarrow> GST_CLOCK_TIME_NONE);
                  duration =
                    (if query_duration p = None \<or> \<not> GST_CLOCK_TIME_IS_VALID queried
                     then (case media_descriptor_duration p of Some d \<Rightarrow> d | None \<Rightarrow> queried)
                     else queried);
                  dduration =
                    (if \<not> GST_CLOCK_TIME_IS_VALID duration then G_MAXDOUBLE A
                     else d_div A (of_int64 A (sint duration)) (of_int64 A GST_SECOND));
                  vars2 = vars1 (''duration'' \<mapsto> G_TYPE_DOUBLE dduration)
              in case query_position p of
                   Some position \<Rightarrow>
                     scenario \<lparr>vars := vars2 (''position'' \<mapsto> G_TYPE_DOUBLE
                       (if \<not> GST_CLOCK_TIME_IS_VALID position then G_MAXDOUBLE A
                        else d_div A (of_int64 A (sint position)) (of_int64 A GST_SECOND)))\<rparr>
                 | None \<Rightarrow> scenario \<lparr>vars := vars2\<rparr>))"

text \<open>
  The regular expression \<open>\$\((\w+)\)\<close>. \<open>\w\<close> is a letter, a digit or the underscore.
  \<open>match_variable s\<close> is the match that starts at the first byte of \<open>s\<close>: the name and
  what follows the closing parenthesis. \<open>\w+\<close> takes all the word bytes there are: with
  fewer, the next byte is a word byte and not the parenthesis.
\<close>

definition isword :: "char \<Rightarrow> bool" where
  "isword c = (isalpha c \<or> isdigit c \<or> c = CHR ''_'')"

definition match_variable :: "string \<Rightarrow> (string \<times> string) option" where
  "match_variable s =
     (case s of
        c1 # c2 # s' \<Rightarrow>
          if c1 = CHR ''$'' \<and> c2 = CHR ''('' then
            (case dropWhile isword s' of
               c3 # rest \<Rightarrow>
                 if c3 = CHR '')'' \<and> takeWhile isword s' \<noteq> [] then Some (takeWhile isword s', rest)
                 else None
             | [] \<Rightarrow> None)
          else None
      | _ \<Rightarrow> None)"

text \<open>
  The names of the matches that \<open>g_match_info_next\<close> walks through, from left to right,
  each search starting after the match before. The matches are those of the string as it
  was given: \<open>match_info\<close> keeps pointing to it.
\<close>

function matched_variables :: "string \<Rightarrow> string list" where
  "matched_variables [] = []"
| "matched_variables (c # cs) =
     (case match_variable (c # cs) of
        Some (varname, rest) \<Rightarrow> varname # matched_variables rest
      | None \<Rightarrow> matched_variables cs)"
  by pat_completeness auto
termination
proof (relation "measure length")
  fix c cs x2 varname rest
  assume "match_variable (c # cs) = Some x2" and "(varname, rest) = x2"
  then have "length rest \<le> length (dropWhile isword (tl cs))"
    by (auto simp: match_variable_def split: list.splits if_splits)
  also have "\<dots> \<le> length (tl cs)" by (rule length_dropWhile_le)
  finally show "(rest, c # cs) \<in> measure length" by simp
qed simp_all

text \<open>
  \<open>g_regex_replace\<close> with the pattern \<open>\$\(varname\)\<close>, which matches the bytes
  \<open>$(varname)\<close> and nothing else: every occurrence of \<open>pattern\<close>, from left to right,
  is replaced.
\<close>

function g_regex_replace :: "string \<Rightarrow> string \<Rightarrow> string \<Rightarrow> string" where
  "g_regex_replace pattern [] replacement = []"
| "g_regex_replace pattern (c # cs) replacement =
     (if pattern \<noteq> [] \<and> take (length pattern) (c # cs) = pattern
      then replacement @ g_regex_replace pattern (drop (length pattern) (c # cs)) replacement
      else c # g_regex_replace pattern cs replacement)"
  by pat_completeness auto
termination
  by (relation "measure (\<lambda>(pattern, s, replacement). length s)") auto

text \<open>
  The loop of \<open>_replace_variables_in_string\<close> over the matches. A variable of type
  double is replaced by its own name, any other by its string value; a name with no
  string value ends the process in \<open>g_error\<close>.
\<close>

fun replace_matches :: "'v GstStructure \<Rightarrow> string \<Rightarrow> string list \<Rightarrow> stop + string" where
  "replace_matches vs string [] = Inr string"
| "replace_matches vs string (varname # others) =
     (case (case vs varname of
              Some (G_TYPE_DOUBLE d) \<Rightarrow> Some varname
            | _ \<Rightarrow> gst_structure_get_string vs varname) of
        None \<Rightarrow> Inl (Trying_to_use_undefined_variable varname)
      | Some var_value \<Rightarrow>
          if CHR 0x5C \<in> set var_value then Inl Replacement_with_backslash
          else replace_matches vs
                 (g_regex_replace (''$('' @ varname @ '')'') string var_value) others)"

text \<open>\<open>_replace_variables_in_string\<close>: the result and the scenario, whose variables
  \<open>_update_well_known_vars\<close> has changed.\<close>

definition replace_variables_in_string ::
  "'v double_ops \<Rightarrow> 'v GstValidateScenario \<Rightarrow> string \<Rightarrow> (stop + string) \<times> 'v GstValidateScenario" where
  "replace_variables_in_string A scenario in_string =
     (let scenario' = update_well_known_vars A scenario
      in (replace_matches (vars scenario') in_string (matched_variables in_string), scenario'))"

text \<open>\<open>_set_variable_func\<close>, the lookup the evaluator is given.\<close>

definition set_variable_func :: "'v GstValidateScenario \<Rightarrow> string \<Rightarrow> 'v option" where
  "set_variable_func scenario varname = gst_structure_get_double (vars scenario) varname"

section \<open>Times\<close>

text \<open>
  \<open>gst_validate_utils_get_clocktime\<close>: the returned boolean and \<open>*retval\<close>.
  \<open>(GstClockTime)\<close> of a \<open>guint\<close> extends with zeros, of a \<open>gint\<close> with the sign.
\<close>

definition gst_validate_utils_get_clocktime ::
  "'v double_ops \<Rightarrow> 'v GstStructure \<Rightarrow> string \<Rightarrow> bool \<times> GstClockTime" where
  "gst_validate_utils_get_clocktime A s fieldname =
     (case s fieldname of
        None \<Rightarrow> (False, GST_CLOCK_TIME_NONE)
      | Some (G_TYPE_UINT64 t) \<Rightarrow> (True, t)
      | Some (G_TYPE_UINT u) \<Rightarrow> (True, ucast u)
      | Some (G_TYPE_INT i) \<Rightarrow> (True, scast i)
      | Some (G_TYPE_INT64 i) \<Rightarrow> (True, i)
      | Some (G_TYPE_DOUBLE val) \<Rightarrow>
          (True, if d_eq A val (of_int64 A (- 1)) then GST_CLOCK_TIME_NONE
                 else GST_ROUND_UP_4 (to_guint64 A (d_mul A val (of_int64 A GST_SECOND))))
      | Some _ \<Rightarrow> (False, GST_CLOCK_TIME_NONE))"

text \<open>
  \<open>gst_validate_action_get_clocktime\<close>: the returned \<open>gboolean\<close> as the integer it is
  (\<open>-1\<close> when the field is missing), \<open>*retval\<close>, and the scenario with its variables
  and the structure of the action. \<open>None\<close> is the evaluator out of nested calls.
\<close>

definition gst_validate_action_get_clocktime ::
  "'v double_ops \<Rightarrow> 'v GstValidateScenario \<Rightarrow> GstValidateAction \<Rightarrow> string \<Rightarrow>
   (stop + int \<times> GstClockTime \<times> 'v GstValidateScenario) option" where
  "gst_validate_action_get_clocktime A scenario action fieldname =
     (case gst_validate_utils_get_clocktime A (structures scenario (addr action)) fieldname of
        (True, retval) \<Rightarrow> Some (Inr (1, retval, scenario))
      | (False, retval) \<Rightarrow>
          (case gst_structure_get_string (structures scenario (addr action)) fieldname of
             None \<Rightarrow> Some (Inr (- 1, retval, scenario))
           | Some tmpvalue \<Rightarrow>
               (case replace_variables_in_string A scenario tmpvalue of
                  (Inl e, scenario') \<Rightarrow> Some (Inl e)
                | (Inr strval, scenario') \<Rightarrow>
                    (case gst_validate_utils_parse_expression A
                            (set_variable_func scenario') strval of
                       None \<Rightarrow> None
                     | Some (val, Some error) \<Rightarrow> Some (Inr (0, retval, scenario'))
                     | Some (val, None) \<Rightarrow>
                         (let t = (if d_eq A val (of_int64 A (- 1)) then GST_CLOCK_TIME_NONE
                                   else GST_ROUND_UP_4
                                          (to_guint64 A (d_mul A val (of_int64 A GST_SECOND))))
                          in Some (Inr (1, t,
                               scenario' \<lparr>structures := (structures scenario')
                                 (addr action := (structures scenario' (addr action))
                                    (fieldname \<mapsto> G_TYPE_UINT64 t))\<rparr>)))))))"



section \<open>The dispatcher\<close>







section \<open>End of stream\<close>










section \<open>Loading scenarios\<close>

text \<open>
  What \<open>gst_validate_scenario_load\<close> asks of the outside: the environment variable, the
  file test, the installation directories, and \<open>_load_scenario_file\<close>, which reads a file
  from the disk: \<open>load_scenario_file path\<close> is its returned boolean and \<open>*is_config\<close>.
\<close>

record loader =
  GST_VALIDATE_SCENARIOS_PATH :: "string option"
  g_path_get_dirname :: "string \<Rightarrow> string"
  g_file_test_IS_REGULAR :: "string \<Rightarrow> bool"
  load_scenario_file :: "string \<Rightarrow> bool \<times> bool"
  g_get_user_data_dir :: string
  GST_DATADIR :: string
  GST_API_VERSION :: string

text \<open>
  \<open>g_strsplit\<close> with a delimiter of one byte and no limit: the fields between the
  delimiters, and no field at all for the empty string.
\<close>

fun split_fields :: "char \<Rightarrow> string \<Rightarrow> string list" where
  "split_fields d [] = [[]]"
| "split_fields d (c # cs) =
     (if c = d then [] # split_fields d cs
      else (case split_fields d cs of f # fs \<Rightarrow> (c # f) # fs | [] \<Rightarrow> [[c]]))"

definition g_strsplit :: "string \<Rightarrow> char \<Rightarrow> string list" where
  "g_strsplit s d = (if s = [] then [] else split_fields d s)"

text \<open>\<open>g_build_filename\<close>: the elements with the directory separator between them
  (it also drops doubled separators, which no property here depends on).\<close>

fun g_build_filename :: "string list \<Rightarrow> string" where
  "g_build_filename [] = []"
| "g_build_filename [e] = e"
| "g_build_filename (e # es) = e @ ''/'' @ g_build_filename es"

definition g_str_has_suffix :: "string \<Rightarrow> string \<Rightarrow> bool" where
  "g_str_has_suffix s suffix = (length suffix \<le> length s \<and> drop (length s - length suffix) s = suffix)"

text \<open>
  The body of the loop of \<open>gst_validate_scenario_load\<close> down to the label
  \<open>check_scenario\<close>: \<open>Some is_config\<close> when a file was loaded, \<open>None\<close> at
  \<open>goto error\<close>. The files are tried in the order of the C code: the name itself when
  it is a regular file, the directories of the environment, \<open>data/scenarios\<close>, the user
  data directory, the system directory.
\<close>

fun first_loaded :: "loader \<Rightarrow> string list \<Rightarrow> bool option" where
  "first_loaded env [] = None"
| "first_loaded env (tldir # more_dirs) =
     (case load_scenario_file env tldir of
        (True, is_config) \<Rightarrow> Some is_config
      | (False, is_config) \<Rightarrow> first_loaded env more_dirs)"

definition find_scenario :: "loader \<Rightarrow> string list option \<Rightarrow> string \<Rightarrow> bool option" where
  "find_scenario env env_scenariodir scenario_name =
     (let lfilename =
            (if g_str_has_suffix scenario_name ''.scenario'' then scenario_name
             else scenario_name @ ''.scenario'')
      in first_loaded env
           ((if g_file_test_IS_REGULAR env scenario_name then [scenario_name] else []) @
            (case env_scenariodir of
               None \<Rightarrow> []
             | Some dirs \<Rightarrow> map (\<lambda>dir. g_build_filename [dir, lfilename]) dirs) @
            [g_build_filename [''data'', ''scenarios'', lfilename],
             g_build_filename [g_get_user_data_dir env, ''gstreamer-'' @ GST_API_VERSION env,
               ''validate'', ''scenarios'', lfilename],
             g_build_filename [GST_DATADIR env, ''gstreamer-'' @ GST_API_VERSION env,
               ''validate'', ''scenarios'', lfilename]]))"

text \<open>
  The loop itself, with \<open>found_actions\<close>. The result is \<open>Inr True\<close> when the function
  returns, else the error it logs before \<open>ret == FALSE\<close> makes \<open>g_error\<close> end the
  process.
\<close>

datatype load_error =
    Invalid_name_for_scenario
  | Scenario_not_found string
  | At_most_one_action_scenario

fun load_scenarios ::
  "loader \<Rightarrow> string list option \<Rightarrow> bool \<Rightarrow> string list \<Rightarrow> load_error + bool" where
  "load_scenarios env env_scenariodir found_actions [] = Inr True"
| "load_scenarios env env_scenariodir found_actions (s # scenarios) =
     (case find_scenario env env_scenariodir s of
        None \<Rightarrow> Inl (Scenario_not_found s)
      | Some is_config \<Rightarrow>
          if \<not> is_config then
            (if found_actions then Inl At_most_one_action_scenario
             else load_scenarios env env_scenariodir True scenarios)
          else load_scenarios env env_scenariodir found_actions scenarios)"

text \<open>
  \<open>gst_validate_scenario_load\<close>. \<open>env_scenariodir\<close> is the list of directories it
  computes first; \<open>G_SEARCHPATH_SEPARATOR\<close> is the colon, and \<open>printf\<close> writes
  \<open>(null)\<close> for the missing environment variable.
\<close>

definition env_scenariodir :: "loader \<Rightarrow> string option \<Rightarrow> string list option" where
  "env_scenariodir env relative_scenario =
     (let scenarios_path =
            (case relative_scenario of
               None \<Rightarrow> GST_VALIDATE_SCENARIOS_PATH env
             | Some rel \<Rightarrow>
                 Some ((case GST_VALIDATE_SCENARIOS_PATH env of None \<Rightarrow> ''(null)'' | Some p \<Rightarrow> p)
                       @ '':'' @ g_path_get_dirname env rel))
      in case scenarios_path of None \<Rightarrow> None | Some p \<Rightarrow> Some (g_strsplit p (CHR '':'')))"

definition gst_validate_scenario_load ::
  "loader \<Rightarrow> string option \<Rightarrow> string option \<Rightarrow> load_error + bool" where
  "gst_validate_scenario_load env scenario_name relative_scenario =
     (case scenario_name of
        None \<Rightarrow> Inl Invalid_name_for_scenario
      | Some n \<Rightarrow>
          load_scenarios env (env_scenariodir env relative_scenario) False
            (g_strsplit n (CHR '':'')))"

section \<open>Strings with variables\<close>





definition var_value :: "'v GstStructure \<Rightarrow> string \<Rightarrow> string option" where
  "var_value vs varname =
     (case vs varname of
        Some (G_TYPE_DOUBLE d) \<Rightarrow> Some varname
      | Some (G_TYPE_STRING str) \<Rightarrow> Some str
      | _ \<Rightarrow> None)"



section \<open>States for the examples\<close>

text \<open>
  An action, a pipeline and a scenario on which the functions are run in the examples
  that follow the theorems; each example changes the fields it is about.
\<close>

definition example_action :: GstValidateAction where
  "example_action =
     \<lparr>addr = 1, type = ''seek'', name = [], playback_time = 10, repeat = - 1,
      action_number = 0, state = GST_VALIDATE_EXECUTE_ACTION_NONE, printed = False,
      executing_last_subaction = False, optional = False, execution_time = 10, timeout = 5,
      needs_playback_parsing = False, pending_set_done = False\<rparr>"

definition example_pipeline :: "real GstElement" where
  "example_pipeline =
     \<lparr>GST_STATE = GST_STATE_PLAYING, query_position = Some 5, query_duration = Some 100,
      query_segment_rate = Some 1, media_descriptor_duration = None\<rparr>"

definition example_scenario :: "real GstValidateScenario" where
  "example_scenario =
     \<lparr>actions = [], interlaced_actions = [], on_addition_actions = [],
      pipeline = Some example_pipeline, vars = Map.empty, structures = (\<lambda>a. Map.empty),
      seek_flags_ACCURATE = False, segment_start = 0, segment_stop = - 1, seek_pos_tol = 0,
      seeked_in_pause = False, message_type = None, buffering = False, got_eos = False,
      changing_state = False, needs_async_done = False\<rparr>"

definition example_types :: "GstValidateActionType list" where
  "example_types =
     [ActionType ''seek'' ''core'' 0 {} ''seek'' None,
      ActionType ''stop'' ''core'' 0 {GST_VALIDATE_ACTION_TYPE_NO_EXECUTION_NOT_FATAL} ''stop'' None,
      ActionType ''set-vars'' ''core'' 0 {GST_VALIDATE_ACTION_TYPE_DOESNT_NEED_PIPELINE} ''vars'' None]"

definition example_loader :: loader where
  "example_loader =
     \<lparr>GST_VALIDATE_SCENARIOS_PATH = None,
      g_path_get_dirname = (\<lambda>path. ''.''),
      g_file_test_IS_REGULAR = (\<lambda>path. path = ''a.scenario'' \<or> path = ''b.scenario'' \<or> path = ''c.scenario''),
      load_scenario_file = (\<lambda>path. (path = ''a.scenario'' \<or> path = ''b.scenario'' \<or> path = ''c.scenario'',
                                    path = ''c.scenario'')),
      g_get_user_data_dir = ''/home/user/.local/share'',
      GST_DATADIR = ''/usr/share'',
      GST_API_VERSION = ''1.0''\<rparr>"

section \<open>An arithmetic to run the evaluator on\<close>

text \<open>
  The theorems on the evaluator hold for every record of operations. To run it on an
  input, the record \<open>real_ops\<close> computes on the reals; on the inputs of the examples
  below (small integers, their sums, products and powers) IEEE doubles give the same
  values. \<open>scan_real\<close> reads a decimal numeral with an optional fraction and exponent,
  and fails on a token with no digit; an exponent mark with no digit after it is left
  unread, as \<open>strtod\<close> leaves it.
\<close>

definition digit_val :: "char \<Rightarrow> nat" where
  "digit_val c = of_char c - 48"

definition digits_val :: "string \<Rightarrow> nat" where
  "digits_val ds = foldl (\<lambda>a c. 10 * a + digit_val c) 0 ds"

definition strip_sign :: "string \<Rightarrow> bool \<times> string" where
  "strip_sign t = (case t of [] \<Rightarrow> (False, [])
     | c # r \<Rightarrow> if c = CHR ''-'' then (True, r) else if c = CHR ''+'' then (False, r) else (False, t))"

definition scan_real :: "string \<Rightarrow> real option" where
  "scan_real token =
     (let (neg, t1) = strip_sign token;
          ip = takeWhile isdigit t1;
          t2 = dropWhile isdigit t1;
          fp = (case t2 of [] \<Rightarrow> [] | c # r \<Rightarrow> if c = CHR ''.'' then takeWhile isdigit r else []);
          t3 = (case t2 of [] \<Rightarrow> [] | c # r \<Rightarrow> if c = CHR ''.'' then dropWhile isdigit r else t2);
          m = real (digits_val (ip @ fp)) / 10 ^ length fp;
          sm = (if neg then - m else m)
      in if ip = [] \<and> fp = [] then None
         else (case t3 of [] \<Rightarrow> Some sm
               | c # r \<Rightarrow>
                   if c = CHR ''e'' \<or> c = CHR ''E'' then
                     (let (eneg, ds) = strip_sign r;
                          ed = takeWhile isdigit ds
                      in if ed = [] then Some sm
                         else Some (if eneg then sm / 10 ^ digits_val ed
                                    else sm * 10 ^ digits_val ed))
                   else Some sm))"

definition pow_real :: "real \<Rightarrow> real \<Rightarrow> real" where
  "pow_real x y =
     (if y = of_int \<lfloor>y\<rfloor>
      then (if 0 \<le> y then x ^ nat \<lfloor>y\<rfloor> else inverse (x ^ nat \<lfloor>- y\<rfloor>))
      else x powr y)"

definition real_ops :: "real double_ops" where
  "real_ops = \<lparr>
     of_int64 = of_int,
     d_add = (+), d_sub = (-), d_mul = (*), d_div = (/),
     d_pow = pow_real,
     d_neg = uminus,
     d_fabs = abs,
     d_lt = (<), d_le = (\<le>), d_eq = (=),
     PARSER_BOOLEAN_EQUALITY_THRESHOLD = 1 / 10 ^ 10,
     sscanf_lf = scan_real,
     to_guint64 = (\<lambda>x. word_of_int \<lfloor>x\<rfloor>),
     G_MAXDOUBLE = (2 ^ 53 - 1) * 2 ^ 971 \<rparr>"

definition no_vars :: "string \<Rightarrow> real option" where "no_vars = (\<lambda>_. None)"

section \<open>Notions of the proofs about the evaluator\<close>

text \<open>
  The definitions of this section are not part of the program: they state how a reader
  behaves when its input is extended (\<open>ext_ok\<close>), that more nested calls do not change a
  result (\<open>res_le\<close>), and that a number of nested calls is enough for an input of a given
  length (\<open>dfd\<close>). \<open>on_char\<close>, \<open>bang_eq\<close>, \<open>token_tail\<close>, \<open>finish_double\<close>,
  \<open>close_paren\<close>, \<open>two_arguments\<close> and \<open>ident_k\<close> name parts of the readers, so that
  the lemmas on these parts can be stated.
\<close>

definition side :: "string \<Rightarrow> char \<Rightarrow> bool" where
  "side x c \<longleftrightarrow>
     (c = CHR ''='' \<longrightarrow> x = [] \<or> last x \<noteq> CHR ''!'') \<and>
     (c = CHR ''+'' \<or> c = CHR ''-'' \<longrightarrow> x = [] \<or> (last x \<noteq> CHR ''e'' \<and> last x \<noteq> CHR ''E''))"

definition ext_ok ::
  "bool \<Rightarrow> (char \<Rightarrow> bool) \<Rightarrow> char \<Rightarrow> string \<Rightarrow> (string \<Rightarrow> 'v result) \<Rightarrow> bool" where
  "ext_ok st B c t p \<longleftrightarrow>
     (\<forall>x v r. p (x @ [NUL]) = Some (Inr (v, r)) \<longrightarrow>
        (\<exists>u y. x = u @ y \<and> r = y @ [NUL] \<and> NUL \<notin> set u \<and> (st \<longrightarrow> u \<noteq> []) \<and>
           ((y = [] \<longrightarrow> \<not> B c) \<longrightarrow> side x c \<longrightarrow>
              p (x @ c # t) = Some (Inr (v, y @ c # t)))))"

text \<open>Looking at the next byte: the branch \<open>Q\<close> takes it, the branch \<open>R\<close> leaves it.\<close>

definition on_char ::
  "(char \<Rightarrow> bool) \<Rightarrow> (char \<Rightarrow> string \<Rightarrow> 'v result) \<Rightarrow> (string \<Rightarrow> 'v result) \<Rightarrow> string \<Rightarrow> 'v result" where
  "on_char T Q R rest =
     (case rest of [] \<Rightarrow> failed Read_past_end | ch # cs \<Rightarrow> if T ch then Q ch cs else R rest)"

subsection \<open>The token readers\<close>

definition lex_ok ::
  "(char \<Rightarrow> bool) \<Rightarrow> char \<Rightarrow> string \<Rightarrow> (string \<Rightarrow> string \<Rightarrow> string result) \<Rightarrow> bool" where
  "lex_ok B c t g \<longleftrightarrow>
     (\<forall>tok x tok' r. g tok (x @ [NUL]) = Some (Inr (tok', r)) \<longrightarrow>
        (\<exists>u y. x = u @ y \<and> r = y @ [NUL] \<and> tok' = tok @ u \<and> NUL \<notin> set u \<and>
           ((y = [] \<longrightarrow> \<not> B c) \<longrightarrow> side x c \<longrightarrow>
              g tok (x @ c # t) = Some (Inr (tok', y @ c # t)))))"

subsection \<open>The bytes a reader looks for\<close>

definition B0 :: "char \<Rightarrow> bool" where
  "B0 c \<longleftrightarrow> isdigit c \<or> isalpha c \<or> c = CHR ''.'' \<or> c = CHR ''_'' \<or> c = CHR ''$'' \<or> c = CHR ''(''"

datatype kind =
    K_BUILTIN | K_PARENTHESIS | K_UNARY | K_POWER | K_TERM | K_EXPR | K_ARGUMENT
  | K_COMPARISON | K_EQUALITY | K_AND | K_OR

fun kind_of :: "'v level \<Rightarrow> kind" where
  "kind_of READ_BUILTIN = K_BUILTIN"
| "kind_of READ_PARENTHESIS = K_PARENTHESIS"
| "kind_of READ_UNARY = K_UNARY"
| "kind_of READ_POWER = K_POWER"
| "kind_of (POWER_LOOP v0 s) = K_POWER"
| "kind_of READ_TERM = K_TERM"
| "kind_of (TERM_LOOP v0) = K_TERM"
| "kind_of READ_EXPR = K_EXPR"
| "kind_of (EXPR_LOOP v0) = K_EXPR"
| "kind_of READ_ARGUMENT = K_ARGUMENT"
| "kind_of READ_BOOLEAN_COMPARISON = K_COMPARISON"
| "kind_of READ_BOOLEAN_EQUALITY = K_EQUALITY"
| "kind_of READ_BOOLEAN_AND = K_AND"
| "kind_of (AND_LOOP v0) = K_AND"
| "kind_of READ_BOOLEAN_OR = K_OR"
| "kind_of (OR_LOOP v0) = K_OR"

fun ops :: "kind \<Rightarrow> string" where
  "ops K_BUILTIN = []"
| "ops K_PARENTHESIS = []"
| "ops K_UNARY = []"
| "ops K_POWER = ''^''"
| "ops K_TERM = ''^*/''"
| "ops K_EXPR = ''^*/+-''"
| "ops K_ARGUMENT = ''^*/+-,''"
| "ops K_COMPARISON = ''^*/+-<>''"
| "ops K_EQUALITY = ''^*/+-<>=!''"
| "ops K_AND = ''^*/+-<>=!&''"
| "ops K_OR = ''^*/+-<>=!&|''"

definition bad :: "kind \<Rightarrow> char \<Rightarrow> bool" where
  "bad k c \<longleftrightarrow> B0 c \<or> c \<in> set (ops k)"

fun strict :: "'v level \<Rightarrow> bool" where
  "strict (TERM_LOOP v0) = False"
| "strict (EXPR_LOOP v0) = False"
| "strict (AND_LOOP v0) = False"
| "strict (OR_LOOP v0) = False"
| "strict (POWER_LOOP v0 s) = False"
| "strict l = True"

definition ext_call :: "char \<Rightarrow> string \<Rightarrow> 'v call \<Rightarrow> bool" where
  "ext_call c t call \<longleftrightarrow> (\<forall>l. ext_ok (strict l) (bad (kind_of l)) c t (call l))"

subsection \<open>\<open>_read_double\<close>\<close>

definition token_tail :: "string \<Rightarrow> string \<Rightarrow> string result" where
  "token_tail token rest =
     then_read (read_digits token rest) (\<lambda>token rest.
     then_read (opt_next (\<lambda>c. c = CHR ''.'') token rest) (\<lambda>token rest.
     then_read (read_digits token rest) (\<lambda>token rest.
     then_read (exponent_mark token rest) read_digits)))"

definition finish_double :: "'v double_ops \<Rightarrow> string \<Rightarrow> string \<Rightarrow> 'v result" where
  "finish_double A token rest =
     (if 256 \<le> length token then failed Token_overflow
      else if token = [] then failed Failed_to_read_real_number
      else (case sscanf_lf A token of
              None \<Rightarrow> failed Failed_to_read_real_number
            | Some val \<Rightarrow> returns val rest))"

text \<open>\<open>!\<close> is taken only together with the \<open>=\<close> after it.\<close>

definition bang_eq :: "(string \<Rightarrow> 'a result) \<Rightarrow> (string \<Rightarrow> 'a result) \<Rightarrow> string \<Rightarrow> 'a result" where
  "bang_eq Q R rest =
     (case rest of [] \<Rightarrow> failed Read_past_end
      | c # cs \<Rightarrow>
          if c = CHR ''!'' then
            (case cs of [] \<Rightarrow> failed Read_past_end
             | c' # cs' \<Rightarrow> if c' = CHR ''='' then Q cs' else R rest)
          else R rest)"

definition close_paren :: "parse_error \<Rightarrow> 'a \<Rightarrow> string \<Rightarrow> 'a result" where
  "close_paren e v =
     on_char (\<lambda>c. c = CHR '')'') (\<lambda>c cs. returns v cs) (\<lambda>rest. failed e)"

text \<open>\<open>_read_builtin\<close>\<close>

definition two_arguments :: "'v call \<Rightarrow> ('v \<Rightarrow> 'v \<Rightarrow> 'v) \<Rightarrow> string \<Rightarrow> 'v result" where
  "two_arguments call f cs =
     then_read (call READ_ARGUMENT cs) (\<lambda>v0 rest.
       then_read (call READ_ARGUMENT rest) (\<lambda>v1.
         close_paren Expected_rparen_builtin (f v0 v1)))"

definition ident_k ::
  "'v call \<Rightarrow> 'v double_ops \<Rightarrow> (string \<Rightarrow> 'v option) \<Rightarrow> string \<Rightarrow> string \<Rightarrow> 'v result" where
  "ident_k call A variable_func token =
     (if 256 \<le> length token then (\<lambda>rest. failed Token_overflow)
      else on_char (\<lambda>c. c = CHR ''('')
        (\<lambda>c. if token = ''min'' then two_arguments call (MIN_macro A)
              else if token = ''max'' then two_arguments call (MAX_macro A)
              else (\<lambda>cs. failed Unknown_builtin))
        (\<lambda>rest. case variable_func token of
                   Some v1 \<Rightarrow> returns v1 rest
                 | None \<Rightarrow> failed (Could_not_look_up token)))"

subsection \<open>More nested calls never change a result\<close>

definition res_le :: "'a result \<Rightarrow> 'a result \<Rightarrow> bool" where
  "res_le a b \<longleftrightarrow> a = None \<or> a = b"

subsection \<open>Enough nested calls give a result\<close>

definition dfd :: "nat \<Rightarrow> (string \<Rightarrow> 'a result) \<Rightarrow> bool" where
  "dfd N p \<longleftrightarrow> (\<forall>x. length x \<le> N \<longrightarrow> p (x @ [NUL]) \<noteq> None)"

fun level_rank :: "kind \<Rightarrow> nat" where
  "level_rank K_BUILTIN = 0"
| "level_rank K_PARENTHESIS = 1"
| "level_rank K_UNARY = 2"
| "level_rank K_POWER = 3"
| "level_rank K_TERM = 4"
| "level_rank K_EXPR = 5"
| "level_rank K_ARGUMENT = 6"
| "level_rank K_COMPARISON = 6"
| "level_rank K_EQUALITY = 7"
| "level_rank K_AND = 8"
| "level_rank K_OR = 9"

definition dfd_call :: "nat \<Rightarrow> 'v call \<Rightarrow> bool" where
  "dfd_call n call \<longleftrightarrow> (\<forall>l N. 10 * N + level_rank (kind_of l) < n \<longrightarrow> dfd N (call l))"

section \<open>Properties\<close>

lemma actions_list_is_done_iff:
  "actions_list_is_done l \<longleftrightarrow> (\<forall>a \<in> set l. optional a)"
  by (induction l) auto

text \<open>
  Claim C9. The signal \<open>done\<close> is emitted by \<open>_check_scenario_is_done\<close> exactly when
  every action left in the three queues (main, interlaced, on-addition) is optional;
  one non-optional action in any of them prevents it.
\<close>

theorem done_signal_iff_all_optional:
  "Signal_DONE \<in> set (check_scenario_is_done scenario) \<longleftrightarrow>
     (\<forall>a \<in> set (actions scenario @ interlaced_actions scenario @ on_addition_actions scenario).
        optional a)"
  by (auto simp: check_scenario_is_done_def actions_list_is_done_iff)

theorem done_signal_iff_all_optional_witness:
  "Signal_DONE \<notin> set (check_scenario_is_done
      \<lparr>actions = [], interlaced_actions = [],
       on_addition_actions = [\<lparr>addr = 1, type = ''wait'', name = [], playback_time = - 1,
         repeat = - 1, action_number = 0, state = GST_VALIDATE_EXECUTE_ACTION_NONE,
         printed = False, executing_last_subaction = False, optional = False,
         execution_time = 0, timeout = - 1, needs_playback_parsing = False,
         pending_set_done = False\<rparr>]\<rparr>)"
  using done_signal_iff_all_optional [of
      "\<lparr>actions = [], interlaced_actions = [],
       on_addition_actions = [\<lparr>addr = 1, type = ''wait'', name = [], playback_time = - 1,
         repeat = - 1, action_number = 0, state = GST_VALIDATE_EXECUTE_ACTION_NONE,
         printed = False, executing_last_subaction = False, optional = False,
         execution_time = 0, timeout = - 1, needs_playback_parsing = False,
         pending_set_done = False\<rparr>]\<rparr>"]
  by simp

subsection \<open>Registry\<close>

lemma find_action_type_tname:
  "find_action_type ts n = Some t \<Longrightarrow> tname t = n \<and> t \<in> set ts"
  by (induction ts) (auto split: if_splits)

lemma find_action_type_None:
  "find_action_type ts n = None \<longleftrightarrow> n \<notin> tname ` set ts"
  by (induction ts) auto

lemma find_action_type_append:
  "find_action_type (ts @ us) n =
     (case find_action_type ts n of Some t \<Rightarrow> Some t | None \<Rightarrow> find_action_type us n)"
  by (induction ts) auto

lemma find_action_type_remove1:
  "distinct (map tname ts) \<Longrightarrow> find_action_type ts n = Some t \<Longrightarrow>
   find_action_type (remove1 t ts) n = None"
proof (induction ts)
  case Nil
  then show ?case by simp
next
  case (Cons u ts)
  show ?case
  proof (cases "tname u = n")
    case True
    with Cons.prems have "t = u" by simp
    moreover from Cons.prems True have "n \<notin> tname ` set ts" by auto
    ultimately show ?thesis by (simp add: find_action_type_None)
  next
    case False
    with Cons.prems have f: "find_action_type ts n = Some t" by simp
    from f False have "t \<noteq> u" by (auto dest: find_action_type_tname)
    with Cons f False show ?thesis by simp
  qed
qed

lemma overriden_type_neq: "overriden_type t \<noteq> Some t"
proof (induction t)
  case (ActionType x1 x2 x3 x4 x5 x6)
  show ?case
  proof
    assume "overriden_type (ActionType x1 x2 x3 x4 x5 x6) = Some (ActionType x1 x2 x3 x4 x5 x6)"
    then have e: "x6 = Some (ActionType x1 x2 x3 x4 x5 x6)" by simp
    then have "ActionType x1 x2 x3 x4 x5 x6 \<in> set_option x6" by simp
    then have "overriden_type (ActionType x1 x2 x3 x4 x5 x6) \<noteq> Some (ActionType x1 x2 x3 x4 x5 x6)"
      by (rule ActionType.IH)
    with e show False by simp
  qed
qed

lemma register_lookup:
  assumes "distinct (map tname ts)"
    and "gst_validate_register_action_type_dynamic ts plugin n r d f = (t, ts')"
  shows "find_action_type ts' n = Some t"
proof (cases "find_action_type ts n")
  case None
  with assms(2) show ?thesis
    by (auto simp: gst_validate_register_action_type_dynamic_def Let_def
        find_action_type_append)
next
  case (Some old)
  show ?thesis
  proof (cases "rank old \<le> r")
    case True
    from assms(1) Some have "find_action_type (remove1 old ts) n = None"
      by (rule find_action_type_remove1)
    with assms(2) Some True show ?thesis
      by (auto simp: gst_validate_register_action_type_dynamic_def Let_def
          find_action_type_append)
  next
    case False
    with assms(2) Some show ?thesis
      by (auto simp: gst_validate_register_action_type_dynamic_def Let_def)
  qed
qed

lemma register_distinct:
  assumes "distinct (map tname ts)"
    and "gst_validate_register_action_type_dynamic ts plugin n r d f = (t, ts')"
  shows "distinct (map tname ts')"
proof (cases "find_action_type ts n")
  case None
  then have "n \<notin> tname ` set ts" by (simp add: find_action_type_None)
  with assms None show ?thesis
    by (auto simp: gst_validate_register_action_type_dynamic_def Let_def)
next
  case (Some old)
  have d: "distinct (map tname (remove1 old ts))"
    using assms(1) set_remove1_subset [of old ts]
    by (auto simp: distinct_map intro: inj_on_subset)
  from assms(1) Some have "find_action_type (remove1 old ts) n = None"
    by (rule find_action_type_remove1)
  then have "n \<notin> tname ` set (remove1 old ts)" by (simp add: find_action_type_None)
  with assms Some d show ?thesis
    by (auto simp: gst_validate_register_action_type_dynamic_def Let_def split: if_splits)
qed

lemma register_rank:
  assumes "gst_validate_register_action_type_dynamic ts p n r d f = (t, ts')"
  shows "rank t = (case find_action_type ts n of None \<Rightarrow> r | Some t0 \<Rightarrow> max (rank t0) r)"
  using assms
  by (auto simp: gst_validate_register_action_type_dynamic_def Let_def
      split: option.splits if_splits)

lemma register_fields:
  assumes "gst_validate_register_action_type_dynamic ts p n r d f = (t, ts')"
  shows "tname t = n"
    and "find_action_type ts n = None \<Longrightarrow>
           t = ActionType n (case p of Some q \<Rightarrow> q | None \<Rightarrow> ''none'') r f d None \<and> ts' = ts @ [t]"
  using assms
  by (auto simp: gst_validate_register_action_type_dynamic_def Let_def
      split: option.splits if_splits dest: find_action_type_tname)

text \<open>
  Claim C3. In a registry with one type per name, after \<open>register(n, rank = r1)\<close> then
  \<open>register(n, rank = r2)\<close> the lookup of \<open>n\<close> gives the type the second call returned.
  The first call returns a type whose rank is \<open>r1\<close> when \<open>n\<close> was not registered, and
  the greater of \<open>r1\<close> and the rank registered before otherwise. If the type registered
  before the second call has a rank strictly greater than \<open>r2\<close>, the new one is
  discarded, that type is returned and the registry is unchanged; otherwise (equal or
  higher new rank) the new type, of rank \<open>r2\<close>, replaces it and carries it as
  \<open>overriden_type\<close>. Either way the lookup resolves to the higher rank: for a name that
  was not registered before, to the rank \<open>max r1 r2\<close>.
\<close>

theorem register_twice_lookup:
  assumes "distinct (map tname ts)"
    and "gst_validate_register_action_type_dynamic ts p1 n r1 d1 f1 = (t1, ts1)"
    and "gst_validate_register_action_type_dynamic ts1 p2 n r2 d2 f2 = (t2, ts2)"
  shows "find_action_type ts1 n = Some t1 \<and> find_action_type ts2 n = Some t2 \<and>
         (r2 < rank t1 \<longrightarrow> t2 = t1 \<and> ts2 = ts1) \<and>
         (rank t1 \<le> r2 \<longrightarrow> rank t2 = r2 \<and> overriden_type t2 = Some t1 \<and> t1 \<notin> set ts2) \<and>
         rank t2 = max (rank t1) r2 \<and>
         rank t1 = (case find_action_type ts n of None \<Rightarrow> r1 | Some t0 \<Rightarrow> max (rank t0) r1) \<and>
         (find_action_type ts n = None \<longrightarrow>
            rank t1 = r1 \<and> overriden_type t1 = None \<and> rank t2 = max r1 r2 \<and>
            (r2 < r1 \<longrightarrow> find_action_type ts2 n =
               Some (ActionType n (case p1 of Some q \<Rightarrow> q | None \<Rightarrow> ''none'') r1 f1 d1 None)) \<and>
            (r1 \<le> r2 \<longrightarrow> find_action_type ts2 n =
               Some (ActionType n (case p2 of Some q \<Rightarrow> q | None \<Rightarrow> ''none'') r2 f2 d2
                 (Some (ActionType n (case p1 of Some q \<Rightarrow> q | None \<Rightarrow> ''none'') r1 f1 d1 None)))))"
proof -
  have l1: "find_action_type ts1 n = Some t1"
    using assms(1,2) by (rule register_lookup)
  have d1: "distinct (map tname ts1)"
    using assms(1,2) by (rule register_distinct)
  have l2: "find_action_type ts2 n = Some t2"
    using d1 assms(3) by (rule register_lookup)
  have keep: "r2 < rank t1 \<longrightarrow> t2 = t1 \<and> ts2 = ts1"
    using assms(3) l1 by (auto simp: gst_validate_register_action_type_dynamic_def Let_def)
  have repl: "rank t1 \<le> r2 \<longrightarrow> rank t2 = r2 \<and> overriden_type t2 = Some t1 \<and> t1 \<notin> set ts2"
  proof
    assume le: "rank t1 \<le> r2"
    have none: "find_action_type (remove1 t1 ts1) n = None"
      using d1 l1 by (rule find_action_type_remove1)
    have "t1 \<notin> set (remove1 t1 ts1)"
      using none l1 by (auto simp: find_action_type_None dest: find_action_type_tname)
    moreover have "ts2 = remove1 t1 ts1 @ [t2]" and "rank t2 = r2"
      and "overriden_type t2 = Some t1"
      using assms(3) l1 le
      by (auto simp: gst_validate_register_action_type_dynamic_def Let_def)
    moreover have "t1 \<noteq> t2"
      using \<open>overriden_type t2 = Some t1\<close> overriden_type_neq [of t2] by auto
    ultimately show "rank t2 = r2 \<and> overriden_type t2 = Some t1 \<and> t1 \<notin> set ts2"
      by auto
  qed
  from keep repl have m: "rank t2 = max (rank t1) r2"
    by (cases "rank t1 \<le> r2") auto
  have r1: "rank t1 = (case find_action_type ts n of None \<Rightarrow> r1 | Some t0 \<Rightarrow> max (rank t0) r1)"
    using assms(2) by (rule register_rank)
  have fresh: "find_action_type ts n = None \<longrightarrow>
            rank t1 = r1 \<and> overriden_type t1 = None \<and> rank t2 = max r1 r2 \<and>
            (r2 < r1 \<longrightarrow> find_action_type ts2 n =
               Some (ActionType n (case p1 of Some q \<Rightarrow> q | None \<Rightarrow> ''none'') r1 f1 d1 None)) \<and>
            (r1 \<le> r2 \<longrightarrow> find_action_type ts2 n =
               Some (ActionType n (case p2 of Some q \<Rightarrow> q | None \<Rightarrow> ''none'') r2 f2 d2
                 (Some (ActionType n (case p1 of Some q \<Rightarrow> q | None \<Rightarrow> ''none'') r1 f1 d1 None))))"
  proof
    assume none: "find_action_type ts n = None"
    from register_fields(2) [OF assms(2) none]
    have t1: "t1 = ActionType n (case p1 of Some q \<Rightarrow> q | None \<Rightarrow> ''none'') r1 f1 d1 None" by simp
    then have rk: "rank t1 = r1" and ov: "overriden_type t1 = None" by simp_all
    have a: "r2 < r1 \<longrightarrow> find_action_type ts2 n = Some t1"
      using keep l2 rk by auto
    have b: "r1 \<le> r2 \<longrightarrow> t2 = ActionType n (case p2 of Some q \<Rightarrow> q | None \<Rightarrow> ''none'') r2 f2 d2 (Some t1)"
      using assms(3) l1 rk
      by (auto simp: gst_validate_register_action_type_dynamic_def Let_def)
    from rk ov m a b l2 show "rank t1 = r1 \<and> overriden_type t1 = None \<and> rank t2 = max r1 r2 \<and>
            (r2 < r1 \<longrightarrow> find_action_type ts2 n =
               Some (ActionType n (case p1 of Some q \<Rightarrow> q | None \<Rightarrow> ''none'') r1 f1 d1 None)) \<and>
            (r1 \<le> r2 \<longrightarrow> find_action_type ts2 n =
               Some (ActionType n (case p2 of Some q \<Rightarrow> q | None \<Rightarrow> ''none'') r2 f2 d2
                 (Some (ActionType n (case p1 of Some q \<Rightarrow> q | None \<Rightarrow> ''none'') r1 f1 d1 None))))"
      unfolding t1 [symmetric] by auto
  qed
  from l1 l2 keep repl m r1 fresh show ?thesis by blast
qed

theorem register_twice_lookup_witness:
  "find_action_type
     (snd (gst_validate_register_action_type_dynamic
        (snd (gst_validate_register_action_type_dynamic [] None ''seek'' 100 ''a'' {}))
        (Some ''plug'') ''seek'' 50 ''b'' {})) ''seek''
   = Some (ActionType ''seek'' ''none'' 100 {} ''a'' None) \<and>
   find_action_type
     (snd (gst_validate_register_action_type_dynamic
        (snd (gst_validate_register_action_type_dynamic [] None ''seek'' 0 ''a'' {}))
        (Some ''plug'') ''seek'' 64 ''b'' {})) ''seek''
   = Some (ActionType ''seek'' ''plug'' 64 {} ''b''
        (Some (ActionType ''seek'' ''none'' 0 {} ''a'' None)))"
proof -
  have a: "gst_validate_register_action_type_dynamic [] None ''seek'' 100 ''a'' {}
        = (ActionType ''seek'' ''none'' 100 {} ''a'' None,
           [ActionType ''seek'' ''none'' 100 {} ''a'' None])"
    by (simp add: gst_validate_register_action_type_dynamic_def Let_def)
  have b: "gst_validate_register_action_type_dynamic
          [ActionType ''seek'' ''none'' 100 {} ''a'' None] (Some ''plug'') ''seek'' 50 ''b'' {}
        = (ActionType ''seek'' ''none'' 100 {} ''a'' None,
           [ActionType ''seek'' ''none'' 100 {} ''a'' None])"
    by (simp add: gst_validate_register_action_type_dynamic_def Let_def)
  have c: "gst_validate_register_action_type_dynamic [] None ''seek'' 0 ''a'' {}
        = (ActionType ''seek'' ''none'' 0 {} ''a'' None,
           [ActionType ''seek'' ''none'' 0 {} ''a'' None])"
    by (simp add: gst_validate_register_action_type_dynamic_def Let_def)
  have e: "gst_validate_register_action_type_dynamic
          [ActionType ''seek'' ''none'' 0 {} ''a'' None] (Some ''plug'') ''seek'' 64 ''b'' {}
        = (ActionType ''seek'' ''plug'' 64 {} ''b''
             (Some (ActionType ''seek'' ''none'' 0 {} ''a'' None)),
           [ActionType ''seek'' ''plug'' 64 {} ''b''
             (Some (ActionType ''seek'' ''none'' 0 {} ''a'' None))])"
    by (simp add: gst_validate_register_action_type_dynamic_def Let_def)
  have d: "distinct (map tname ([] :: GstValidateActionType list))" by simp
  from register_twice_lookup [OF d a b] register_twice_lookup [OF d c e] show ?thesis
    by (simp add: a b c e)
qed

section \<open>Properties of the expression evaluator\<close>

lemma side_suffix: "side (u @ y) c \<Longrightarrow> side y c"
  by (cases "y = []") (auto simp: side_def)

lemma ext_okI:
  assumes "\<And>x v r. p (x @ [NUL]) = Some (Inr (v, r)) \<Longrightarrow>
        \<exists>u y. x = u @ y \<and> r = y @ [NUL] \<and> NUL \<notin> set u \<and> (st \<longrightarrow> u \<noteq> []) \<and>
           ((y = [] \<longrightarrow> \<not> B c) \<longrightarrow> side x c \<longrightarrow>
              p (x @ c # t) = Some (Inr (v, y @ c # t)))"
  shows "ext_ok st B c t p"
  using assms unfolding ext_ok_def by blast

lemma ext_okD:
  assumes "ext_ok st B c t p" and "p (x @ [NUL]) = Some (Inr (v, r))"
  shows "\<exists>u y. x = u @ y \<and> r = y @ [NUL] \<and> NUL \<notin> set u \<and> (st \<longrightarrow> u \<noteq> []) \<and>
           ((y = [] \<longrightarrow> \<not> B c) \<longrightarrow> side x c \<longrightarrow>
              p (x @ c # t) = Some (Inr (v, y @ c # t)))"
  using assms unfolding ext_ok_def by blast

lemma ext_ok_returns: "ext_ok False B c t (returns v)"
  by (rule ext_okI) (auto simp: returns_def)

lemma ext_ok_failed: "ext_ok st B c t (\<lambda>rest. failed e)"
  by (rule ext_okI) (auto simp: failed_def)

lemma ext_ok_weaken:
  assumes "ext_ok st B c t p" and "\<And>ch. B ch \<Longrightarrow> B' ch" and "st' \<Longrightarrow> st"
  shows "ext_ok st' B' c t p"
proof (rule ext_okI)
  fix x v r assume "p (x @ [NUL]) = Some (Inr (v, r))"
  from ext_okD [OF assms(1) this]
  obtain u y where "x = u @ y" "r = y @ [NUL]" "NUL \<notin> set u" "st \<longrightarrow> u \<noteq> []"
    and e: "(y = [] \<longrightarrow> \<not> B c) \<longrightarrow> side x c \<longrightarrow> p (x @ c # t) = Some (Inr (v, y @ c # t))"
    by blast
  with assms(2,3) show "\<exists>u y. x = u @ y \<and> r = y @ [NUL] \<and> NUL \<notin> set u \<and> (st' \<longrightarrow> u \<noteq> []) \<and>
           ((y = [] \<longrightarrow> \<not> B' c) \<longrightarrow> side x c \<longrightarrow>
              p (x @ c # t) = Some (Inr (v, y @ c # t)))"
    by blast
qed

lemma then_read_Inr:
  "then_read m k = Some (Inr (v, r)) \<longleftrightarrow>
     (\<exists>v1 r1. m = Some (Inr (v1, r1)) \<and> k v1 r1 = Some (Inr (v, r)))"
  by (auto simp: then_read_def split: option.splits sum.splits)

text \<open>Sequencing: the callee may be judged with a bad set of its own when the
  continuation needs input (\<open>stk\<close>), as it does after an upward call.\<close>

lemma ext_ok_then:
  assumes p: "ext_ok stp Bp c t p"
    and k: "\<And>v. ext_ok stk B c t (k v)"
    and B: "stk \<or> (\<forall>ch. Bp ch \<longrightarrow> B ch)"
  shows "ext_ok (stp \<or> stk) B c t (\<lambda>rest. then_read (p rest) k)"
proof (rule ext_okI)
  fix x v r assume "then_read (p (x @ [NUL])) k = Some (Inr (v, r))"
  then obtain v1 r1 where p1: "p (x @ [NUL]) = Some (Inr (v1, r1))"
    and k1: "k v1 r1 = Some (Inr (v, r))"
    by (auto simp: then_read_Inr)
  from ext_okD [OF p p1] obtain u1 y1 where x: "x = u1 @ y1" and r1: "r1 = y1 @ [NUL]"
    and n1: "NUL \<notin> set u1" and s1: "stp \<longrightarrow> u1 \<noteq> []"
    and e1: "(y1 = [] \<longrightarrow> \<not> Bp c) \<longrightarrow> side x c \<longrightarrow> p (x @ c # t) = Some (Inr (v1, y1 @ c # t))"
    by blast
  from ext_okD [OF k [of v1] k1 [unfolded r1]] obtain u2 y where y1: "y1 = u2 @ y"
    and r: "r = y @ [NUL]"
    and n2: "NUL \<notin> set u2" and s2: "stk \<longrightarrow> u2 \<noteq> []"
    and e2: "(y = [] \<longrightarrow> \<not> B c) \<longrightarrow> side y1 c \<longrightarrow> k v1 (y1 @ c # t) = Some (Inr (v, y @ c # t))"
    by blast
  have "then_read (p (x @ c # t)) k = Some (Inr (v, y @ c # t))"
    if a: "y = [] \<longrightarrow> \<not> B c" and b: "side x c"
  proof -
    have "y1 = [] \<longrightarrow> \<not> Bp c"
    proof
      assume "y1 = []"
      with y1 s2 have "\<not> stk" and "y = []" by auto
      with B a show "\<not> Bp c" by auto
    qed
    with e1 b have "p (x @ c # t) = Some (Inr (v1, y1 @ c # t))" by blast
    moreover from b x have "side y1 c" by (auto intro: side_suffix)
    with e2 a have "k v1 (y1 @ c # t) = Some (Inr (v, y @ c # t))" by blast
    ultimately show ?thesis by (simp add: then_read_def)
  qed
  with x y1 r n1 n2 s1 s2
  show "\<exists>u y. x = u @ y \<and> r = y @ [NUL] \<and> NUL \<notin> set u \<and> (stp \<or> stk \<longrightarrow> u \<noteq> []) \<and>
           ((y = [] \<longrightarrow> \<not> B c) \<longrightarrow> side x c \<longrightarrow>
              then_read (p (x @ c # t)) k = Some (Inr (v, y @ c # t)))"
    by (intro exI [of _ "u1 @ u2"] exI [of _ y]) auto
qed

lemma ext_ok_on_char:
  assumes T: "\<not> T NUL"
    and Q: "\<And>ch. T ch \<Longrightarrow> ext_ok stq B c t (Q ch)"
    and R: "ext_ok st B c t R"
    and B: "st \<or> (\<forall>ch. T ch \<longrightarrow> B ch)"
  shows "ext_ok st B c t (on_char T Q R)"
proof (rule ext_okI)
  fix x v r assume a: "on_char T Q R (x @ [NUL]) = Some (Inr (v, r))"
  show "\<exists>u y. x = u @ y \<and> r = y @ [NUL] \<and> NUL \<notin> set u \<and> (st \<longrightarrow> u \<noteq> []) \<and>
           ((y = [] \<longrightarrow> \<not> B c) \<longrightarrow> side x c \<longrightarrow>
              on_char T Q R (x @ c # t) = Some (Inr (v, y @ c # t)))"
  proof (cases x)
    case Nil
    with a T have "R (x @ [NUL]) = Some (Inr (v, r))" by (simp add: on_char_def)
    from ext_okD [OF R this]
    obtain u y where 1: "x = u @ y" "r = y @ [NUL]" "NUL \<notin> set u" "st \<longrightarrow> u \<noteq> []"
      and e: "(y = [] \<longrightarrow> \<not> B c) \<longrightarrow> side x c \<longrightarrow> R (x @ c # t) = Some (Inr (v, y @ c # t))"
      by blast
    from 1 Nil have ns: "\<not> st" and y: "y = []" by auto
    have "on_char T Q R (x @ c # t) = Some (Inr (v, y @ c # t))"
      if "y = [] \<longrightarrow> \<not> B c" and "side x c"
    proof -
      from that y ns B have "\<not> T c" by auto
      with Nil e that show ?thesis by (simp add: on_char_def)
    qed
    with 1 show ?thesis by blast
  next
    case (Cons ch x')
    show ?thesis
    proof (cases "T ch")
      case True
      with a Cons have "Q ch (x' @ [NUL]) = Some (Inr (v, r))" by (simp add: on_char_def)
      from ext_okD [OF Q [OF True] this]
      obtain u y where 1: "x' = u @ y" "r = y @ [NUL]" "NUL \<notin> set u"
        and e: "(y = [] \<longrightarrow> \<not> B c) \<longrightarrow> side x' c \<longrightarrow> Q ch (x' @ c # t) = Some (Inr (v, y @ c # t))"
        by blast
      from True T have "ch \<noteq> NUL" by auto
      moreover have "side x c \<Longrightarrow> side x' c"
        using side_suffix [of "[ch]" x' c] Cons by simp
      ultimately show ?thesis using 1 e True Cons
        by (intro exI [of _ "ch # u"] exI [of _ y]) (auto simp: on_char_def)
    next
      case False
      with a Cons have "R (x @ [NUL]) = Some (Inr (v, r))" by (simp add: on_char_def)
      from ext_okD [OF R this]
      obtain u y where 1: "x = u @ y" "r = y @ [NUL]" "NUL \<notin> set u" "st \<longrightarrow> u \<noteq> []"
        and e: "(y = [] \<longrightarrow> \<not> B c) \<longrightarrow> side x c \<longrightarrow> R (x @ c # t) = Some (Inr (v, y @ c # t))"
        by blast
      with False Cons show ?thesis
        by (intro exI [of _ u] exI [of _ y]) (auto simp: on_char_def)
    qed
  qed
qed

lemma then_read_returns [simp]: "then_read (returns v r) k = k v r"
  by (simp add: then_read_def returns_def)

lemma then_read_failed [simp]: "then_read (failed e) k = failed e"
  by (simp add: then_read_def failed_def)

lemma then_read_assoc:
  "then_read (then_read m f) g = then_read m (\<lambda>v r. then_read (f v r) g)"
  by (simp add: then_read_def split: option.splits sum.splits)

lemma failed_neq [simp]: "failed e \<noteq> Some (Inr z)" "failed e \<noteq> None"
  by (simp_all add: failed_def)

lemma returns_eq [simp]: "returns v r = Some (Inr (v', r')) \<longleftrightarrow> v = v' \<and> r = r'"
  by (auto simp: returns_def)

lemma NUL_simps [simp]: "\<not> isdigit NUL" "\<not> isalpha NUL" "\<not> isident NUL" "\<not> is_sign NUL"
  "NUL \<noteq> CHR ''.''" "NUL \<noteq> CHR ''e''" "NUL \<noteq> CHR ''E''" "NUL \<noteq> CHR ''+''" "NUL \<noteq> CHR ''-''"
  "NUL \<noteq> CHR ''_''" "NUL \<noteq> CHR ''$''" "NUL \<noteq> CHR ''(''" "NUL \<noteq> CHR '')''" "NUL \<noteq> CHR '',''"
  "NUL \<noteq> CHR ''*''" "NUL \<noteq> CHR ''/''" "NUL \<noteq> CHR ''^''" "NUL \<noteq> CHR ''<''" "NUL \<noteq> CHR ''>''"
  "NUL \<noteq> CHR ''=''" "NUL \<noteq> CHR ''!''" "NUL \<noteq> CHR ''&''" "NUL \<noteq> CHR ''|''"
  by (simp_all add: NUL_def isdigit_def isalpha_def isident_def is_sign_def)

lemma lex_okD:
  assumes "lex_ok B c t g" and "g tok (x @ [NUL]) = Some (Inr (tok', r))"
  shows "\<exists>u y. x = u @ y \<and> r = y @ [NUL] \<and> tok' = tok @ u \<and> NUL \<notin> set u \<and>
           ((y = [] \<longrightarrow> \<not> B c) \<longrightarrow> side x c \<longrightarrow>
              g tok (x @ c # t) = Some (Inr (tok', y @ c # t)))"
  using assms unfolding lex_ok_def by blast

lemma lex_ok_scan:
  assumes P: "\<not> P NUL" "\<And>ch. P ch \<Longrightarrow> B ch"
    and g0: "\<And>tok. g tok [] = failed Read_past_end"
    and g1: "\<And>tok ch cs. g tok (ch # cs) = (if P ch then g (tok @ [ch]) cs else returns tok (ch # cs))"
  shows "lex_ok B c t g"
  unfolding lex_ok_def
proof (intro allI impI)
  fix tok x tok' r
  assume "g tok (x @ [NUL]) = Some (Inr (tok', r))"
  then show "\<exists>u y. x = u @ y \<and> r = y @ [NUL] \<and> tok' = tok @ u \<and> NUL \<notin> set u \<and>
           ((y = [] \<longrightarrow> \<not> B c) \<longrightarrow> side x c \<longrightarrow>
              g tok (x @ c # t) = Some (Inr (tok', y @ c # t)))"
  proof (induction x arbitrary: tok)
    case Nil
    with P g1 [of tok NUL "[]"] have "tok' = tok" "r = [NUL]" by auto
    moreover have "\<not> B c \<Longrightarrow> g tok (c # t) = Some (Inr (tok, c # t))"
      using P g1 [of tok c t] by (auto simp: returns_def)
    ultimately show ?case by auto
  next
    case (Cons ch x)
    show ?case
    proof (cases "P ch")
      case True
      with Cons.prems g1 [of tok ch "x @ [NUL]"]
      have "g (tok @ [ch]) (x @ [NUL]) = Some (Inr (tok', r))" by simp
      from Cons.IH [OF this] obtain u y where 1: "x = u @ y" "r = y @ [NUL]"
        "tok' = (tok @ [ch]) @ u" "NUL \<notin> set u"
        and e: "(y = [] \<longrightarrow> \<not> B c) \<longrightarrow> side x c \<longrightarrow>
              g (tok @ [ch]) (x @ c # t) = Some (Inr (tok', y @ c # t))"
        by blast
      from True P have "ch \<noteq> NUL" by auto
      moreover have "side (ch # x) c \<Longrightarrow> side x c"
        using side_suffix [of "[ch]" x c] by simp
      ultimately show ?thesis using 1 e True g1 [of tok ch "x @ c # t"]
        by (intro exI [of _ "ch # u"] exI [of _ y]) auto
    next
      case False
      with Cons.prems g1 [of tok ch "x @ [NUL]"]
      have "tok' = tok" "r = (ch # x) @ [NUL]" by auto
      with False g1 [of tok ch "x @ c # t"] show ?thesis
        by (intro exI [of _ "[]"] exI [of _ "ch # x"]) (auto simp: returns_def)
    qed
  qed
qed

lemma lex_ok_digits: "(\<And>ch. isdigit ch \<Longrightarrow> B ch) \<Longrightarrow> lex_ok B c t read_digits"
  by (rule lex_ok_scan [where P = isdigit]) simp_all

lemma lex_ok_ident: "(\<And>ch. isident ch \<Longrightarrow> B ch) \<Longrightarrow> lex_ok B c t read_ident"
  by (rule lex_ok_scan [where P = isident]) simp_all

lemma lex_ok_opt_next:
  assumes "\<not> P NUL" "\<And>ch. P ch \<Longrightarrow> B ch"
  shows "lex_ok B c t (opt_next P)"
  unfolding lex_ok_def
proof (intro allI impI)
  fix tok x tok' r
  assume a: "opt_next P tok (x @ [NUL]) = Some (Inr (tok', r))"
  show "\<exists>u y. x = u @ y \<and> r = y @ [NUL] \<and> tok' = tok @ u \<and> NUL \<notin> set u \<and>
           ((y = [] \<longrightarrow> \<not> B c) \<longrightarrow> side x c \<longrightarrow>
              opt_next P tok (x @ c # t) = Some (Inr (tok', y @ c # t)))"
  proof (cases x)
    case Nil
    with a assms show ?thesis by (auto simp: opt_next_def)
  next
    case (Cons ch x')
    show ?thesis
    proof (cases "P ch")
      case True
      with assms have "ch \<noteq> NUL" by auto
      with a Cons True show ?thesis
        by (intro exI [of _ "[ch]"] exI [of _ x']) (auto simp: opt_next_def)
    next
      case False
      with a Cons show ?thesis
        by (intro exI [of _ "[]"] exI [of _ x]) (auto simp: opt_next_def)
    qed
  qed
qed

lemma lex_ok_seq:
  assumes g: "lex_ok B c t g" and h: "lex_ok B c t h"
  shows "lex_ok B c t (\<lambda>tok rest. then_read (g tok rest) h)"
  unfolding lex_ok_def
proof (intro allI impI)
  fix tok x tok' r
  assume "then_read (g tok (x @ [NUL])) h = Some (Inr (tok', r))"
  then obtain tok1 r1 where g1: "g tok (x @ [NUL]) = Some (Inr (tok1, r1))"
    and h1: "h tok1 r1 = Some (Inr (tok', r))"
    by (auto simp: then_read_Inr)
  from lex_okD [OF g g1] obtain u1 y1 where 1: "x = u1 @ y1" "r1 = y1 @ [NUL]"
    "tok1 = tok @ u1" "NUL \<notin> set u1"
    and e1: "(y1 = [] \<longrightarrow> \<not> B c) \<longrightarrow> side x c \<longrightarrow>
       g tok (x @ c # t) = Some (Inr (tok1, y1 @ c # t))"
    by blast
  from lex_okD [OF h h1 [unfolded 1(2)]] obtain u2 y where 2: "y1 = u2 @ y" "r = y @ [NUL]"
    "tok' = tok1 @ u2" "NUL \<notin> set u2"
    and e2: "(y = [] \<longrightarrow> \<not> B c) \<longrightarrow> side y1 c \<longrightarrow>
       h tok1 (y1 @ c # t) = Some (Inr (tok', y @ c # t))"
    by blast
  have "then_read (g tok (x @ c # t)) h = Some (Inr (tok', y @ c # t))"
    if a: "y = [] \<longrightarrow> \<not> B c" and b: "side x c"
  proof -
    from a 2 have "y1 = [] \<longrightarrow> \<not> B c" by auto
    with e1 b have "g tok (x @ c # t) = Some (Inr (tok1, y1 @ c # t))" by blast
    moreover from b 1 have "side y1 c" by (auto intro: side_suffix)
    with e2 a have "h tok1 (y1 @ c # t) = Some (Inr (tok', y @ c # t))" by blast
    ultimately show ?thesis by (simp add: then_read_def)
  qed
  with 1 2 show "\<exists>u y. x = u @ y \<and> r = y @ [NUL] \<and> tok' = tok @ u \<and> NUL \<notin> set u \<and>
           ((y = [] \<longrightarrow> \<not> B c) \<longrightarrow> side x c \<longrightarrow>
              then_read (g tok (x @ c # t)) h = Some (Inr (tok', y @ c # t)))"
    by (intro exI [of _ "u1 @ u2"] exI [of _ y]) auto
qed

text \<open>The exponent marker and its sign.\<close>

lemma lex_ok_exponent_mark:
  assumes B: "B (CHR ''e'')" "B (CHR ''E'')"
  shows "lex_ok B c t exponent_mark"
  unfolding lex_ok_def
proof (intro allI impI)
  fix tok x tok' r
  assume a: "exponent_mark tok (x @ [NUL]) = Some (Inr (tok', r))"
  show "\<exists>u y. x = u @ y \<and> r = y @ [NUL] \<and> tok' = tok @ u \<and> NUL \<notin> set u \<and>
           ((y = [] \<longrightarrow> \<not> B c) \<longrightarrow> side x c \<longrightarrow>
              exponent_mark tok (x @ c # t) = Some (Inr (tok', y @ c # t)))"
  proof (cases x)
    case Nil
    with a B show ?thesis by (auto simp: exponent_mark_def)
  next
    case (Cons ch x')
    show ?thesis
    proof (cases "ch = CHR ''e'' \<or> ch = CHR ''E''")
      case False
      with a Cons show ?thesis
        by (intro exI [of _ "[]"] exI [of _ x]) (auto simp: exponent_mark_def)
    next
      case True
      then have ch: "ch \<noteq> NUL" by auto
      show ?thesis
      proof (cases x')
        case Nil
        with a Cons True have "tok' = tok @ [ch]" "r = [NUL]"
          by (auto simp: exponent_mark_def opt_next_def)
        moreover have "exponent_mark tok (x @ c # t) = Some (Inr (tok @ [ch], c # t))"
          if "side x c"
        proof -
          from that Cons Nil True have "\<not> is_sign c" by (auto simp: side_def is_sign_def)
          with Cons Nil True show ?thesis by (auto simp: exponent_mark_def opt_next_def)
        qed
        ultimately show ?thesis using Cons Nil ch
          by (intro exI [of _ "[ch]"] exI [of _ "[]"]) auto
      next
        case (Cons c2 x'')
        show ?thesis
        proof (cases "is_sign c2")
          case True
          then have "c2 \<noteq> NUL" by auto
          with a \<open>x = ch # x'\<close> Cons \<open>ch = CHR ''e'' \<or> ch = CHR ''E''\<close> True ch show ?thesis
            by (intro exI [of _ "[ch, c2]"] exI [of _ x''])
              (auto simp: exponent_mark_def opt_next_def)
        next
          case False
          with a \<open>x = ch # x'\<close> Cons \<open>ch = CHR ''e'' \<or> ch = CHR ''E''\<close> ch show ?thesis
            by (intro exI [of _ "[ch]"] exI [of _ x'])
              (auto simp: exponent_mark_def opt_next_def)
        qed
      qed
    qed
  qed
qed

lemma ext_callD: "ext_call c t call \<Longrightarrow> ext_ok (strict l) (bad (kind_of l)) c t (call l)"
  by (simp add: ext_call_def)

lemma read_double_tail:
  "read_double A rest =
     then_read (opt_next is_sign [] rest) (\<lambda>token rest.
       then_read (token_tail token rest) (finish_double A))"
  by (simp add: read_double_def token_tail_def finish_double_def [abs_def] then_read_assoc)

lemma lex_ok_token_tail: "lex_ok B0 c t token_tail"
  unfolding token_tail_def
  by (intro lex_ok_seq lex_ok_digits lex_ok_opt_next lex_ok_exponent_mark)
     (auto simp: B0_def isalpha_def)

lemma finish_double_Inr:
  "finish_double A token rest = Some (Inr (v, r)) \<Longrightarrow> token \<noteq> [] \<and> r = rest"
  by (auto simp: finish_double_def split: if_splits option.splits)

lemma finish_double_rest:
  "finish_double A token rest = Some (Inr (v, rest)) \<Longrightarrow>
   finish_double A token rest' = Some (Inr (v, rest'))"
  by (auto simp: finish_double_def split: if_splits option.splits)

lemma ext_ok_read_double: "ext_ok True B0 c t (read_double A)"
proof (rule ext_okI)
  fix x v r
  assume a: "read_double A (x @ [NUL]) = Some (Inr (v, r))"
  show "\<exists>u y. x = u @ y \<and> r = y @ [NUL] \<and> NUL \<notin> set u \<and> (True \<longrightarrow> u \<noteq> []) \<and>
           ((y = [] \<longrightarrow> \<not> B0 c) \<longrightarrow> side x c \<longrightarrow>
              read_double A (x @ c # t) = Some (Inr (v, y @ c # t)))"
  proof (cases x)
    case Nil
    with a obtain tok' r' where tt: "token_tail [] [NUL] = Some (Inr (tok', r'))"
      and f: "finish_double A tok' r' = Some (Inr (v, r))"
      by (auto simp: read_double_tail opt_next_def then_read_Inr)
    from lex_okD [OF lex_ok_token_tail, of "[]" "[]" tok' r'] tt have "tok' = []"
      by auto
    with f show ?thesis by (auto dest: finish_double_Inr)
  next
    case (Cons ch x')
    define tok0 where "tok0 = (if is_sign ch then [ch] else [])"
    define x0 where "x0 = (if is_sign ch then x' else x)"
    have first: "opt_next is_sign [] (x @ z) = returns tok0 (x0 @ z)" for z
      using Cons by (simp add: opt_next_def tok0_def x0_def)
    have x: "x = tok0 @ x0" using Cons by (simp add: tok0_def x0_def)
    have n0: "NUL \<notin> set tok0" by (auto simp: tok0_def)
    from a obtain tok' r' where tt: "token_tail tok0 (x0 @ [NUL]) = Some (Inr (tok', r'))"
      and f: "finish_double A tok' r' = Some (Inr (v, r))"
      by (auto simp: read_double_tail first then_read_Inr)
    from lex_okD [OF lex_ok_token_tail tt] obtain u y where 1: "x0 = u @ y" "r' = y @ [NUL]"
      "tok' = tok0 @ u" "NUL \<notin> set u"
      and e: "(y = [] \<longrightarrow> \<not> B0 c) \<longrightarrow> side x0 c \<longrightarrow>
         token_tail tok0 (x0 @ c # t) = Some (Inr (tok', y @ c # t))"
      by blast
    from f have 2: "tok' \<noteq> []" "r = r'" by (auto dest: finish_double_Inr)
    have "read_double A (x @ c # t) = Some (Inr (v, y @ c # t))"
      if "y = [] \<longrightarrow> \<not> B0 c" and "side x c"
    proof -
      from that x have "side x0 c" by (metis side_suffix)
      with e that have "token_tail tok0 (x0 @ c # t) = Some (Inr (tok', y @ c # t))" by blast
      moreover from f 2 1 have "finish_double A tok' (y @ c # t) = Some (Inr (v, y @ c # t))"
        by (auto intro: finish_double_rest)
      ultimately show ?thesis
        by (simp add: read_double_tail first then_read_def returns_def)
    qed
    with x 1 2 n0 show ?thesis
      by (intro exI [of _ "tok0 @ u"] exI [of _ y]) auto
  qed
qed

lemma ext_ok_then':
  assumes p: "ext_ok stp Bp c t p"
    and k: "\<And>v. ext_ok stk Bk c t (k v)"
    and Bk: "\<And>ch. Bk ch \<Longrightarrow> B ch"
    and Bp: "stk \<or> (\<forall>ch. Bp ch \<longrightarrow> B ch)"
    and st: "st \<Longrightarrow> stp \<or> stk"
  shows "ext_ok st B c t (\<lambda>rest. then_read (p rest) k)"
proof -
  have "\<And>v. ext_ok stk B c t (k v)"
    by (rule ext_ok_weaken [OF k Bk])
  from ext_ok_then [OF p this Bp] show ?thesis
    by (rule ext_ok_weaken) (use st in auto)
qed

lemma ext_ok_on_char':
  assumes T: "\<not> T NUL"
    and Q: "\<And>ch. T ch \<Longrightarrow> ext_ok stq Bq c t (Q ch)"
    and R: "ext_ok str Br c t R"
    and Bq: "\<And>ch. Bq ch \<Longrightarrow> B ch"
    and Br: "\<And>ch. Br ch \<Longrightarrow> B ch"
    and TB: "str \<or> (\<forall>ch. T ch \<longrightarrow> B ch)"
    and st: "st \<Longrightarrow> str"
  shows "ext_ok st B c t (on_char T Q R)"
proof -
  have q: "\<And>ch. T ch \<Longrightarrow> ext_ok stq B c t (Q ch)"
    by (rule ext_ok_weaken [OF Q Bq])
  have r: "ext_ok str B c t R"
    by (rule ext_ok_weaken [OF R Br])
  from ext_ok_on_char [OF T q r TB] show ?thesis
    by (rule ext_ok_weaken) (use st in auto)
qed

lemma ext_ok_if:
  assumes "P \<Longrightarrow> ext_ok st B c t f" and "\<not> P \<Longrightarrow> ext_ok st B c t g"
  shows "ext_ok st B c t (\<lambda>rest. if P then f rest else g rest)"
  using assms by (cases P) (simp_all add: ext_ok_def)

lemma ext_ok_if':
  assumes "P \<Longrightarrow> ext_ok st B c t f" and "\<not> P \<Longrightarrow> ext_ok st B c t g"
  shows "ext_ok st B c t (if P then f else g)"
  using assms by (cases P) simp_all

lemma ext_ok_failed': "ext_ok st B c t (\<lambda>rest. failed e)"
  by (rule ext_ok_failed)

lemma ext_ok_lookup:
  "ext_ok False B c t (\<lambda>rest. case m of Some v1 \<Rightarrow> returns v1 rest | None \<Rightarrow> failed e)"
  by (cases m) (simp_all add: ext_ok_failed ext_ok_returns [unfolded returns_def [abs_def]]
      returns_def [abs_def])

lemma lex_ok_ext: "lex_ok B c t g \<Longrightarrow> ext_ok False B c t (g tok)"
  unfolding lex_ok_def ext_ok_def by blast

lemma ext_ok_bang_eq:
  assumes Q: "ext_ok stq B c t Q" and R: "ext_ok False B c t R" and B: "B (CHR ''!'')"
  shows "ext_ok False B c t (bang_eq Q R)"
proof (rule ext_okI)
  fix x v r assume a: "bang_eq Q R (x @ [NUL]) = Some (Inr (v, r))"
  let ?goal = "\<exists>u y. x = u @ y \<and> r = y @ [NUL] \<and> NUL \<notin> set u \<and> (False \<longrightarrow> u \<noteq> []) \<and>
           ((y = [] \<longrightarrow> \<not> B c) \<longrightarrow> side x c \<longrightarrow>
              bang_eq Q R (x @ c # t) = Some (Inr (v, y @ c # t)))"
  have viaR: ?goal
    if n: "bang_eq Q R (x @ [NUL]) = R (x @ [NUL])"
      and e: "\<And>y. x = [] \<longrightarrow> \<not> B c \<Longrightarrow> side x c \<Longrightarrow> bang_eq Q R (x @ c # t) = R (x @ c # t)"
  proof -
    from a n have "R (x @ [NUL]) = Some (Inr (v, r))" by simp
    from ext_okD [OF R this] obtain u y where 1: "x = u @ y" "r = y @ [NUL]" "NUL \<notin> set u"
      and 2: "(y = [] \<longrightarrow> \<not> B c) \<longrightarrow> side x c \<longrightarrow> R (x @ c # t) = Some (Inr (v, y @ c # t))"
      by blast
    have "bang_eq Q R (x @ c # t) = Some (Inr (v, y @ c # t))"
      if "y = [] \<longrightarrow> \<not> B c" and "side x c"
    proof -
      from that 1 have "x = [] \<longrightarrow> \<not> B c" by auto
      from e [OF this that(2)] 2 that show ?thesis by simp
    qed
    with 1 show ?thesis by blast
  qed
  show ?goal
  proof (cases x)
    case Nil
    show ?thesis
    proof (rule viaR)
      show "bang_eq Q R (x @ [NUL]) = R (x @ [NUL])"
        using Nil by (simp add: bang_eq_def)
      show "bang_eq Q R (x @ c # t) = R (x @ c # t)" if "x = [] \<longrightarrow> \<not> B c"
        using Nil that B by (auto simp: bang_eq_def)
    qed
  next
    case (Cons ch x')
    show ?thesis
    proof (cases "ch = CHR ''!''")
      case False
      with Cons show ?thesis
        by (intro viaR) (simp_all add: bang_eq_def)
    next
      case True
      show ?thesis
      proof (cases x')
        case Nil
        show ?thesis
        proof (rule viaR)
          show "bang_eq Q R (x @ [NUL]) = R (x @ [NUL])"
            using Cons True Nil by (simp add: bang_eq_def)
          show "bang_eq Q R (x @ c # t) = R (x @ c # t)" if "side x c"
            using Cons True Nil that by (auto simp: bang_eq_def side_def)
        qed
      next
        case c2: (Cons c' x'')
        show ?thesis
        proof (cases "c' = CHR ''=''")
          case False
          with Cons True c2 show ?thesis
            by (intro viaR) (simp_all add: bang_eq_def)
        next
          case eq: True
          with a Cons True c2 have "Q (x'' @ [NUL]) = Some (Inr (v, r))"
            by (simp add: bang_eq_def)
          from ext_okD [OF Q this] obtain u y where 1: "x'' = u @ y" "r = y @ [NUL]"
            "NUL \<notin> set u"
            and 2: "(y = [] \<longrightarrow> \<not> B c) \<longrightarrow> side x'' c \<longrightarrow>
               Q (x'' @ c # t) = Some (Inr (v, y @ c # t))"
            by blast
          have "side x c \<Longrightarrow> side x'' c"
            using side_suffix [of "[ch, c']" x'' c] Cons c2 by simp
          with 1 2 Cons True c2 eq show ?thesis
            by (intro exI [of _ "ch # c' # u"] exI [of _ y]) (auto simp: bang_eq_def)
        qed
      qed
    qed
  qed
qed

subsection \<open>Each C function\<close>

lemma B0_bad: "B0 ch \<Longrightarrow> bad l ch"
  by (simp add: bad_def)

lemma ext_loopD:
  assumes E: "ext_call c t call"
  shows "ext_ok False (bad K_TERM) c t (call (TERM_LOOP v))"
    and "ext_ok False (bad K_EXPR) c t (call (EXPR_LOOP v))"
    and "ext_ok False (bad K_AND) c t (call (AND_LOOP v))"
    and "ext_ok False (bad K_OR) c t (call (OR_LOOP v))"
    and "ext_ok False (bad K_POWER) c t (call (POWER_LOOP v s))"
  using ext_callD [OF E, of "TERM_LOOP v"] ext_callD [OF E, of "EXPR_LOOP v"]
    ext_callD [OF E, of "AND_LOOP v"] ext_callD [OF E, of "OR_LOOP v"]
    ext_callD [OF E, of "POWER_LOOP v s"]
  by simp_all

lemma ext_returning: "ext_ok False B c t (\<lambda>rest. returns v rest)"
  using ext_ok_returns [of B c t v] by (simp add: returns_def [abs_def])

lemma ext_step:
  assumes E: "ext_call c t call"
    and k: "\<And>v. ext_ok stk Bk c t (k v)"
    and Bk: "\<And>ch. Bk ch \<Longrightarrow> bad k' ch"
    and Bp: "stk \<or> set (ops (kind_of l)) \<subseteq> set (ops k')"
    and st: "st \<Longrightarrow> strict l \<or> stk"
  shows "ext_ok st (bad k') c t (\<lambda>rest. then_read (call l rest) k)"
  by (rule ext_ok_then' [OF ext_callD [OF E] k Bk]) (use Bp st in \<open>auto simp: bad_def\<close>)

lemma ext_tail_call:
  assumes E: "ext_call c t call"
    and "set (ops (kind_of l)) \<subseteq> set (ops k')" and "st \<Longrightarrow> strict l"
  shows "ext_ok st (bad k') c t (call l)"
  by (rule ext_ok_weaken [OF ext_callD [OF E]]) (use assms in \<open>auto simp: bad_def\<close>)

lemma ext_read_term:
  assumes E: "ext_call c t call"
  shows "ext_ok True (bad K_TERM) c t (read_term call)"
  unfolding read_term_def [abs_def]
  by (rule ext_step [OF E ext_loopD(1) [OF E]]) auto

lemma term_loop_canon:
  "term_loop call A v0 =
     on_char (\<lambda>c. c = CHR ''*'' \<or> c = CHR ''/'')
       (\<lambda>c cs. then_read (call READ_POWER cs)
          (\<lambda>v1 rest. call (TERM_LOOP (if c = CHR ''*'' then d_mul A v0 v1 else d_div A v0 v1)) rest))
       (returns v0)"
  by (rule ext) (simp add: term_loop_def on_char_def split: list.split)

lemma ext_term_loop:
  assumes E: "ext_call c t call"
  shows "ext_ok False (bad K_TERM) c t (term_loop call A v0)"
  unfolding term_loop_canon
  by (rule ext_ok_on_char' [OF _ ext_step [OF E ext_loopD(1) [OF E], where k' = K_TERM
          and st = True] ext_ok_returns])
     (auto simp: bad_def)

lemma read_expr_canon:
  "read_expr call A =
     on_char (\<lambda>c. c = CHR ''+'' \<or> c = CHR ''-'')
       (\<lambda>c cs. then_read (call READ_TERM cs)
          (\<lambda>v1 rest. call (EXPR_LOOP
             (if c = CHR ''+'' then d_add A (of_int64 A 0) v1 else d_sub A (of_int64 A 0) v1)) rest))
       (\<lambda>rest. then_read (call READ_TERM rest) (\<lambda>v0 rest. call (EXPR_LOOP v0) rest))"
  by (rule ext) (simp add: read_expr_def on_char_def split: list.split)

lemma ext_read_expr:
  assumes E: "ext_call c t call"
  shows "ext_ok True (bad K_EXPR) c t (read_expr call A)"
proof -
  have q: "ext_ok True (bad K_EXPR) c t
     (\<lambda>cs. then_read (call READ_TERM cs) (\<lambda>v1 rest. call (EXPR_LOOP (f v1)) rest))"
    for f :: "'a \<Rightarrow> 'a"
    by (rule ext_step [OF E ext_loopD(2) [OF E]]) auto
  show ?thesis
    unfolding read_expr_canon
    by (rule ext_ok_on_char' [OF _ q q [of "\<lambda>v. v"]]) auto
qed

lemma expr_loop_canon:
  "expr_loop call A v0 =
     on_char (\<lambda>c. c = CHR ''+'' \<or> c = CHR ''-'')
       (\<lambda>c cs. then_read (call READ_TERM cs)
          (\<lambda>v1 rest. call (EXPR_LOOP (if c = CHR ''+'' then d_add A v0 v1 else d_sub A v0 v1)) rest))
       (returns v0)"
  by (rule ext) (simp add: expr_loop_def on_char_def split: list.split)

lemma ext_expr_loop:
  assumes E: "ext_call c t call"
  shows "ext_ok False (bad K_EXPR) c t (expr_loop call A v0)"
  unfolding expr_loop_canon
  by (rule ext_ok_on_char' [OF _ ext_step [OF E ext_loopD(2) [OF E], where k' = K_EXPR
          and st = True] ext_ok_returns])
     (auto simp: bad_def)

lemma read_boolean_comparison_canon:
  "read_boolean_comparison call A =
     (\<lambda>rest. then_read (call READ_EXPR rest) (\<lambda>v0.
        on_char (\<lambda>c. c = CHR ''>'' \<or> c = CHR ''<'')
          (\<lambda>c. on_char (\<lambda>c'. c' = CHR ''='')
             (\<lambda>c' cs'. then_read (call READ_EXPR cs')
                (\<lambda>v1 rest. returns (bool_val A
                   (if c = CHR ''<'' then d_le A v0 v1 else d_le A v1 v0)) rest))
             (\<lambda>rest'. then_read (call READ_EXPR rest')
                (\<lambda>v1 rest. returns (bool_val A
                   (if c = CHR ''<'' then d_lt A v0 v1 else d_lt A v1 v0)) rest)))
          (returns v0)))"
  apply (rule ext)
  apply (simp add: read_boolean_comparison_def)
  apply (rule arg_cong [where f = "then_read _"])
  apply (rule ext)+
  apply (auto simp: on_char_def split: list.split)
  done

lemma ext_read_boolean_comparison:
  assumes E: "ext_call c t call"
  shows "ext_ok True (bad K_COMPARISON) c t (read_boolean_comparison call A)"
proof -
  let ?B = "bad K_COMPARISON"
  have e: "ext_ok True ?B c t (\<lambda>cs'. then_read (call READ_EXPR cs')
                (\<lambda>v1 rest. returns (f v1) rest))" for f :: "'a \<Rightarrow> 'a"
    by (rule ext_step [OF E ext_returning]) auto
  have two: "ext_ok True ?B c t (on_char (\<lambda>c'. c' = CHR ''='')
      (\<lambda>c' cs'. then_read (call READ_EXPR cs') (\<lambda>v1 rest. returns (f v1) rest))
      (\<lambda>rest'. then_read (call READ_EXPR rest') (\<lambda>v1 rest. returns (g v1) rest)))"
    for f g :: "'a \<Rightarrow> 'a"
    by (rule ext_ok_on_char' [OF _ e e]) auto
  have k: "ext_ok False ?B c t (on_char (\<lambda>c. c = CHR ''>'' \<or> c = CHR ''<'')
      (\<lambda>c. on_char (\<lambda>c'. c' = CHR ''='')
         (\<lambda>c' cs'. then_read (call READ_EXPR cs') (\<lambda>v1 rest. returns (f c v1) rest))
         (\<lambda>rest'. then_read (call READ_EXPR rest') (\<lambda>v1 rest. returns (g c v1) rest)))
      (returns w))" for w and f g :: "char \<Rightarrow> 'a \<Rightarrow> 'a"
    by (rule ext_ok_on_char' [OF _ two ext_ok_returns]) (auto simp: bad_def)
  show ?thesis
    unfolding read_boolean_comparison_canon
    by (rule ext_step [OF E k]) auto
qed

lemma read_boolean_equality_canon:
  "read_boolean_equality call A =
     (\<lambda>rest. then_read (call READ_BOOLEAN_COMPARISON rest) (\<lambda>v0.
        on_char (\<lambda>c. c = CHR ''='')
          (\<lambda>c. on_char (\<lambda>c'. c' = CHR ''='')
             (\<lambda>c' cs'. then_read (call READ_BOOLEAN_COMPARISON cs')
                (\<lambda>v1 rest. returns (bool_val A (d_lt A (d_fabs A (d_sub A v0 v1))
                                (PARSER_BOOLEAN_EQUALITY_THRESHOLD A))) rest))
             (\<lambda>rest. failed Expected_eq))
          (bang_eq
             (\<lambda>cs'. then_read (call READ_BOOLEAN_COMPARISON cs')
                (\<lambda>v1 rest. returns (bool_val A (d_lt A (PARSER_BOOLEAN_EQUALITY_THRESHOLD A)
                                (d_fabs A (d_sub A v0 v1)))) rest))
             (returns v0))))"
  apply (rule ext)
  apply (simp add: read_boolean_equality_def)
  apply (rule arg_cong [where f = "then_read _"])
  apply (rule ext)+
  apply (auto simp: on_char_def bang_eq_def split: list.split)
  done

lemma ext_read_boolean_equality:
  assumes E: "ext_call c t call"
  shows "ext_ok True (bad K_EQUALITY) c t (read_boolean_equality call A)"
proof -
  let ?B = "bad K_EQUALITY"
  have cmp: "ext_ok True ?B c t (\<lambda>cs'. then_read (call READ_BOOLEAN_COMPARISON cs')
                (\<lambda>v1 rest. returns (f v1) rest))" for f :: "'a \<Rightarrow> 'a"
    by (rule ext_step [OF E ext_returning]) auto
  have two: "ext_ok True ?B c t (on_char (\<lambda>c'. c' = CHR ''='')
      (\<lambda>c' cs'. then_read (call READ_BOOLEAN_COMPARISON cs') (\<lambda>v1 rest. returns (f v1) rest))
      (\<lambda>rest. failed Expected_eq))" for f :: "'a \<Rightarrow> 'a"
    by (rule ext_ok_on_char' [OF _ cmp ext_ok_failed]) auto
  have bang: "ext_ok False ?B c t (bang_eq
      (\<lambda>cs'. then_read (call READ_BOOLEAN_COMPARISON cs') (\<lambda>v1 rest. returns (f v1) rest))
      (returns w))" for w and f :: "'a \<Rightarrow> 'a"
    by (rule ext_ok_bang_eq [OF cmp ext_ok_returns]) (simp add: bad_def)
  have k: "ext_ok False ?B c t (on_char (\<lambda>c. c = CHR ''='')
      (\<lambda>c. on_char (\<lambda>c'. c' = CHR ''='')
         (\<lambda>c' cs'. then_read (call READ_BOOLEAN_COMPARISON cs') (\<lambda>v1 rest. returns (f v1) rest))
         (\<lambda>rest. failed Expected_eq))
      (bang_eq
         (\<lambda>cs'. then_read (call READ_BOOLEAN_COMPARISON cs') (\<lambda>v1 rest. returns (g v1) rest))
         (returns w)))" for w and f g :: "'a \<Rightarrow> 'a"
    by (rule ext_ok_on_char' [OF _ two bang]) (auto simp: bad_def)
  show ?thesis
    unfolding read_boolean_equality_canon
    by (rule ext_step [OF E k]) auto
qed

lemma ext_read_boolean_and:
  assumes E: "ext_call c t call"
  shows "ext_ok True (bad K_AND) c t (read_boolean_and call)"
  unfolding read_boolean_and_def [abs_def]
  by (rule ext_step [OF E ext_loopD(3) [OF E]]) auto

lemma and_loop_canon:
  "and_loop call A v0 =
     on_char (\<lambda>c. c = CHR ''&'')
       (\<lambda>c. on_char (\<lambda>c'. c' = CHR ''&'')
          (\<lambda>c' cs'. then_read (call READ_BOOLEAN_EQUALITY cs')
             (\<lambda>v1 rest. call (AND_LOOP
                (bool_val A (d_le A (PARSER_BOOLEAN_EQUALITY_THRESHOLD A) (d_fabs A v0) \<and>
                             d_le A (PARSER_BOOLEAN_EQUALITY_THRESHOLD A) (d_fabs A v1))))
                rest))
          (\<lambda>rest. failed Expected_amp))
       (returns v0)"
  by (rule ext) (auto simp: and_loop_def on_char_def split: list.split)

lemma ext_and_loop:
  assumes E: "ext_call c t call"
  shows "ext_ok False (bad K_AND) c t (and_loop call A v0)"
proof -
  let ?B = "bad K_AND"
  have inner: "ext_ok True ?B c t
      (\<lambda>cs'. then_read (call READ_BOOLEAN_EQUALITY cs')
         (\<lambda>v1 rest. call (AND_LOOP (f v1)) rest))" for f :: "'a \<Rightarrow> 'a"
    by (rule ext_step [OF E ext_loopD(3) [OF E]]) auto
  have two: "ext_ok True ?B c t (on_char (\<lambda>c'. c' = CHR ''&'')
      (\<lambda>c' cs'. then_read (call READ_BOOLEAN_EQUALITY cs')
         (\<lambda>v1 rest. call (AND_LOOP (f v1)) rest))
      (\<lambda>rest. failed Expected_amp))" for f :: "'a \<Rightarrow> 'a"
    by (rule ext_ok_on_char' [OF _ inner ext_ok_failed]) auto
  show ?thesis
    unfolding and_loop_canon
    by (rule ext_ok_on_char' [OF _ two ext_ok_returns]) (auto simp: bad_def)
qed

lemma ext_read_boolean_or:
  assumes E: "ext_call c t call"
  shows "ext_ok True (bad K_OR) c t (read_boolean_or call)"
  unfolding read_boolean_or_def [abs_def]
  by (rule ext_step [OF E ext_loopD(4) [OF E]]) auto

lemma or_loop_canon:
  "or_loop call A v0 =
     on_char (\<lambda>c. c = CHR ''|'')
       (\<lambda>c. on_char (\<lambda>c'. c' = CHR ''|'')
          (\<lambda>c' cs'. then_read (call READ_BOOLEAN_AND cs')
             (\<lambda>v1 rest. call (OR_LOOP
                (bool_val A (d_le A (PARSER_BOOLEAN_EQUALITY_THRESHOLD A) (d_fabs A v0) \<or>
                             d_le A (PARSER_BOOLEAN_EQUALITY_THRESHOLD A) (d_fabs A v1))))
                rest))
          (\<lambda>rest. failed Expected_bar))
       (returns v0)"
  by (rule ext) (auto simp: or_loop_def on_char_def split: list.split)

lemma ext_or_loop:
  assumes E: "ext_call c t call"
  shows "ext_ok False (bad K_OR) c t (or_loop call A v0)"
proof -
  let ?B = "bad K_OR"
  have inner: "ext_ok True ?B c t
      (\<lambda>cs'. then_read (call READ_BOOLEAN_AND cs')
         (\<lambda>v1 rest. call (OR_LOOP (f v1)) rest))" for f :: "'a \<Rightarrow> 'a"
    by (rule ext_step [OF E ext_loopD(4) [OF E]]) auto
  have two: "ext_ok True ?B c t (on_char (\<lambda>c'. c' = CHR ''|'')
      (\<lambda>c' cs'. then_read (call READ_BOOLEAN_AND cs')
         (\<lambda>v1 rest. call (OR_LOOP (f v1)) rest))
      (\<lambda>rest. failed Expected_bar))" for f :: "'a \<Rightarrow> 'a"
    by (rule ext_ok_on_char' [OF _ inner ext_ok_failed]) auto
  show ?thesis
    unfolding or_loop_canon
    by (rule ext_ok_on_char' [OF _ two ext_ok_returns]) (auto simp: bad_def)
qed

lemma read_argument_canon:
  "read_argument call =
     (\<lambda>rest. then_read (call READ_EXPR rest) (\<lambda>val.
        on_char (\<lambda>c. c = CHR '','') (\<lambda>c cs. returns val cs) (returns val)))"
  apply (rule ext)
  apply (simp add: read_argument_def)
  apply (rule arg_cong [where f = "then_read _"])
  apply (rule ext)+
  apply (auto simp: on_char_def split: list.split)
  done

lemma ext_read_argument:
  assumes E: "ext_call c t call"
  shows "ext_ok True (bad K_ARGUMENT) c t (read_argument call)"
proof -
  have k: "ext_ok False (bad K_ARGUMENT) c t
     (on_char (\<lambda>c. c = CHR '','') (\<lambda>c cs. returns val cs) (returns val))" for val :: 'a
    by (rule ext_ok_on_char' [OF _ ext_returning ext_ok_returns]) (auto simp: bad_def)
  show ?thesis
    unfolding read_argument_canon
    by (rule ext_step [OF E k]) auto
qed

lemma ext_close_paren: "ext_ok True B c t (close_paren e v)"
  unfolding close_paren_def
  by (rule ext_ok_on_char' [OF _ ext_returning ext_ok_failed]) auto

lemma read_parenthesis_canon:
  "read_parenthesis call =
     on_char (\<lambda>c. c = CHR ''('')
       (\<lambda>c cs. then_read (call READ_BOOLEAN_OR cs) (close_paren Expected_rparen))
       (call READ_BUILTIN)"
  apply (rule ext)
  apply (simp add: read_parenthesis_def on_char_def split: list.split)
  apply (intro allI impI arg_cong [where f = "then_read _"] ext)
  apply (auto simp: close_paren_def on_char_def split: list.split)
  done

lemma ext_read_parenthesis:
  assumes E: "ext_call c t call"
  shows "ext_ok True (bad K_PARENTHESIS) c t (read_parenthesis call)"
proof -
  have inner: "ext_ok True (bad K_PARENTHESIS) c t
     (\<lambda>cs. then_read (call READ_BOOLEAN_OR cs) (close_paren Expected_rparen))"
    by (rule ext_step [OF E ext_close_paren]) auto
  show ?thesis
    unfolding read_parenthesis_canon
    by (rule ext_ok_on_char' [OF _ inner
          ext_tail_call [OF E, where k' = K_PARENTHESIS and l = READ_BUILTIN and st = True]])
       (auto simp: bad_def B0_def)
qed

lemma read_unary_canon:
  "read_unary call A =
     on_char (\<lambda>c. c = CHR ''!'' \<or> c = CHR ''-'' \<or> c = CHR ''+'')
       (\<lambda>c. if c = CHR ''!'' then (\<lambda>cs. failed Unexpected_bang)
             else if c = CHR ''-'' then
               (\<lambda>cs. then_read (call READ_PARENTHESIS cs) (\<lambda>v rest. returns (d_neg A v) rest))
             else call READ_PARENTHESIS)
       (call READ_PARENTHESIS)"
  by (rule ext) (auto simp: read_unary_def on_char_def split: list.split)

lemma ext_read_unary:
  assumes E: "ext_call c t call"
  shows "ext_ok True (bad K_UNARY) c t (read_unary call A)"
proof -
  let ?B = "bad K_UNARY"
  have neg: "ext_ok True ?B c t
     (\<lambda>cs. then_read (call READ_PARENTHESIS cs) (\<lambda>v rest. returns (d_neg A v) rest))"
    by (rule ext_step [OF E ext_returning]) auto
  have par: "ext_ok True ?B c t (call READ_PARENTHESIS)"
    by (rule ext_tail_call [OF E]) auto
  have q: "ext_ok True ?B c t
     (if ch = CHR ''!'' then (\<lambda>cs. failed Unexpected_bang)
      else if ch = CHR ''-'' then
        (\<lambda>cs. then_read (call READ_PARENTHESIS cs) (\<lambda>v rest. returns (d_neg A v) rest))
      else call READ_PARENTHESIS)" for ch
    by (intro ext_ok_if' ext_ok_failed neg par)
  show ?thesis
    unfolding read_unary_canon
    by (rule ext_ok_on_char' [OF _ q par]) auto
qed

lemma ext_read_power:
  assumes E: "ext_call c t call"
  shows "ext_ok True (bad K_POWER) c t (read_power call A)"
  unfolding read_power_def [abs_def]
  by (rule ext_step [OF E ext_loopD(5) [OF E]]) auto

lemma power_loop_canon:
  "power_loop call A v0 s =
     on_char (\<lambda>c. c = CHR ''^'')
       (\<lambda>c. on_char (\<lambda>c'. c' = CHR ''-'')
          (\<lambda>c' cs'. then_read (call READ_POWER cs')
             (\<lambda>v1 rest. call (POWER_LOOP (d_pow A v0 (d_mul A (of_int64 A (- 1)) v1))
                (of_int64 A (- 1))) rest))
          (\<lambda>rest'. then_read (call READ_POWER rest')
             (\<lambda>v1 rest. call (POWER_LOOP (d_pow A v0 (d_mul A s v1)) s) rest)))
       (returns v0)"
  by (rule ext) (auto simp: power_loop_def on_char_def split: list.split)

lemma ext_power_loop:
  assumes E: "ext_call c t call"
  shows "ext_ok False (bad K_POWER) c t (power_loop call A v0 s)"
proof -
  let ?B = "bad K_POWER"
  have inner: "ext_ok True ?B c t
      (\<lambda>cs'. then_read (call READ_POWER cs')
         (\<lambda>v1 rest. call (POWER_LOOP (f v1) s') rest))" for f :: "'a \<Rightarrow> 'a" and s'
    by (rule ext_step [OF E ext_loopD(5) [OF E]]) auto
  have two: "ext_ok True ?B c t (on_char (\<lambda>c'. c' = CHR ''-'')
      (\<lambda>c' cs'. then_read (call READ_POWER cs')
         (\<lambda>v1 rest. call (POWER_LOOP (f v1) s1) rest))
      (\<lambda>rest'. then_read (call READ_POWER rest')
         (\<lambda>v1 rest. call (POWER_LOOP (g v1) s2) rest)))" for f g :: "'a \<Rightarrow> 'a" and s1 s2
    by (rule ext_ok_on_char' [OF _ inner inner]) auto
  show ?thesis
    unfolding power_loop_canon
    by (rule ext_ok_on_char' [OF _ two ext_ok_returns]) (auto simp: bad_def)
qed

lemma read_builtin_canon:
  "read_builtin call A variable_func =
     on_char (\<lambda>c. isalpha c \<or> c = CHR ''_'' \<or> c = CHR ''$'')
       (\<lambda>c cs. then_read (read_ident [c] cs) (ident_k call A variable_func))
       (read_double A)"
proof (rule ext)
  fix rest
  have k: "(\<lambda>token rest.
             if 256 \<le> length token then failed Token_overflow
             else
             (case rest of [] \<Rightarrow> failed Read_past_end | c # cs \<Rightarrow>
                if c = CHR ''('' then
                  then_read
                    (if token = ''min'' then
                       then_read (call READ_ARGUMENT cs) (\<lambda>v0 rest.
                         then_read (call READ_ARGUMENT rest) (\<lambda>v1 rest.
                           returns (MIN_macro A v0 v1) rest))
                     else if token = ''max'' then
                       then_read (call READ_ARGUMENT cs) (\<lambda>v0 rest.
                         then_read (call READ_ARGUMENT rest) (\<lambda>v1 rest.
                           returns (MAX_macro A v0 v1) rest))
                     else failed Unknown_builtin)
                    (\<lambda>v0 rest.
                       case rest of [] \<Rightarrow> failed Read_past_end | c # cs \<Rightarrow>
                         if c \<noteq> CHR '')'' then failed Expected_rparen_builtin
                         else returns v0 cs)
                else
                  (case variable_func token of
                     Some v1 \<Rightarrow> returns v1 rest
                   | None \<Rightarrow> failed (Could_not_look_up token))))
        = ident_k call A variable_func"
    apply (rule ext)+
    apply (simp add: ident_k_def on_char_def two_arguments_def then_read_assoc
        close_paren_def [abs_def] split: list.split)
    apply (intro allI impI conjI arg_cong [where f = "then_read _"] ext)
    apply (auto simp: on_char_def split: list.split)
    done
  show "read_builtin call A variable_func rest =
     on_char (\<lambda>c. isalpha c \<or> c = CHR ''_'' \<or> c = CHR ''$'')
       (\<lambda>c cs. then_read (read_ident [c] cs) (ident_k call A variable_func))
       (read_double A) rest"
    unfolding read_builtin_def k
    by (auto simp: on_char_def isident_def split: list.split)
qed

lemma ext_two_arguments:
  assumes E: "ext_call c t call"
  shows "ext_ok True (bad K_BUILTIN) c t (two_arguments call f)"
proof -
  have second: "ext_ok True (bad K_BUILTIN) c t
     (\<lambda>rest. then_read (call READ_ARGUMENT rest) (\<lambda>v1.
         close_paren Expected_rparen_builtin (f w v1)))" for w
    by (rule ext_step [OF E ext_close_paren]) auto
  show ?thesis
    unfolding two_arguments_def [abs_def]
    by (rule ext_step [OF E second]) auto
qed

lemma ext_ident_k:
  assumes E: "ext_call c t call"
  shows "ext_ok False (bad K_BUILTIN) c t (ident_k call A variable_func token)"
proof -
  let ?B = "bad K_BUILTIN"
  have q: "ext_ok True ?B c t
     (if token = ''min'' then two_arguments call (MIN_macro A)
      else if token = ''max'' then two_arguments call (MAX_macro A)
      else (\<lambda>cs. failed Unknown_builtin))"
    by (intro ext_ok_if' ext_ok_failed ext_two_arguments [OF E])
  have "ext_ok False ?B c t
     (on_char (\<lambda>c. c = CHR ''('')
        (\<lambda>c. if token = ''min'' then two_arguments call (MIN_macro A)
              else if token = ''max'' then two_arguments call (MAX_macro A)
              else (\<lambda>cs. failed Unknown_builtin))
        (\<lambda>rest. case variable_func token of
                   Some v1 \<Rightarrow> returns v1 rest
                 | None \<Rightarrow> failed (Could_not_look_up token)))"
    by (rule ext_ok_on_char' [OF _ q ext_ok_lookup]) (auto simp: bad_def B0_def)
  then show ?thesis
    unfolding ident_k_def by (auto intro: ext_ok_failed)
qed

lemma ext_read_builtin:
  assumes E: "ext_call c t call"
  shows "ext_ok True (bad K_BUILTIN) c t (read_builtin call A variable_func)"
proof -
  let ?B = "bad K_BUILTIN"
  have id: "ext_ok False ?B c t (read_ident tok)" for tok
    by (rule lex_ok_ext [OF lex_ok_ident]) (auto simp: bad_def B0_def isident_def)
  have q: "ext_ok False ?B c t
     (\<lambda>cs. then_read (read_ident [ch] cs) (ident_k call A variable_func))" for ch
    by (rule ext_ok_then' [OF id ext_ident_k [OF E]]) auto
  have d: "ext_ok True ?B c t (read_double A)"
    by (rule ext_ok_weaken [OF ext_ok_read_double]) (auto simp: bad_def)
  show ?thesis
    unfolding read_builtin_canon
    by (rule ext_ok_on_char' [OF _ q d]) auto
qed

subsection \<open>All of them, for every number of nested calls\<close>

lemma ext_call_body:
  assumes E: "ext_call c t call"
  shows "ext_call c t (reader_body call A variable_func)"
  unfolding ext_call_def
proof (intro allI)
  fix l :: "'a level"
  show "ext_ok (strict l) (bad (kind_of l)) c t (reader_body call A variable_func l)"
    by (cases l)
      (simp_all add: reader_body_def [abs_def] ext_read_term [OF E] ext_term_loop [OF E]
        ext_read_expr [OF E] ext_expr_loop [OF E] ext_read_boolean_comparison [OF E]
        ext_read_boolean_equality [OF E] ext_read_boolean_and [OF E] ext_and_loop [OF E]
        ext_read_boolean_or [OF E] ext_or_loop [OF E] ext_read_argument [OF E]
        ext_read_builtin [OF E] ext_read_parenthesis [OF E] ext_read_unary [OF E]
        ext_read_power [OF E] ext_power_loop [OF E])
qed

lemma ext_call_reader: "ext_call c t (reader n A variable_func)"
proof (induction n)
  case 0
  show ?case by (simp add: ext_call_def ext_ok_def)
next
  case (Suc n)
  then show ?case by (simp add: ext_call_body)
qed

lemma res_le_refl [simp]: "res_le a a"
  by (simp add: res_le_def)

lemma res_le_None [simp]: "res_le None a"
  by (simp add: res_le_def)

lemma then_read_le:
  assumes "res_le m m'" and "\<And>v r. res_le (k v r) (k' v r)"
  shows "res_le (then_read m k) (then_read m' k')"
  using assms by (auto simp: res_le_def then_read_def split: option.splits sum.splits)

lemma body_le:
  assumes c: "\<And>l rest. res_le (call l rest) (call' l rest)"
  shows "res_le (reader_body call A vf l rest) (reader_body call' A vf l rest)"
proof (cases l)
  case READ_BUILTIN
  then show ?thesis
    by (auto simp: reader_body_def read_builtin_def intro!: then_read_le c split: list.split)
qed (auto simp: reader_body_def read_term_def term_loop_def read_expr_def expr_loop_def
      read_boolean_comparison_def read_boolean_equality_def read_boolean_and_def and_loop_def
      read_boolean_or_def or_loop_def read_argument_def read_parenthesis_def
      read_unary_def read_power_def power_loop_def
      intro!: then_read_le c split: list.split)

lemma reader_le_Suc:
  "res_le (reader n A vf l rest) (reader (Suc n) A vf l rest)"
proof (induction n arbitrary: l rest)
  case 0
  show ?case by simp
next
  case (Suc n)
  show ?case
    using body_le [of "reader n A vf" "reader (Suc n) A vf", OF Suc] by simp
qed

lemma reader_mono:
  assumes "reader n A vf l rest = Some r" and "n \<le> m"
  shows "reader m A vf l rest = Some r"
  using assms(2,1)
proof (induction m rule: dec_induct)
  case base
  then show ?case .
next
  case (step k)
  with reader_le_Suc [of k A vf l rest] show ?case
    by (auto simp: res_le_def)
qed

lemma dfd_callD: "dfd_call n call \<Longrightarrow> 10 * N + level_rank (kind_of l) < n \<Longrightarrow> dfd N (call l)"
  by (simp add: dfd_call_def)

lemma dfd_returns: "dfd N (returns v)"
  by (simp add: dfd_def returns_def)

lemma dfd_returning: "dfd N (\<lambda>rest. returns v rest)"
  by (simp add: dfd_def returns_def)

lemma dfd_failed: "dfd N (\<lambda>rest. failed e)"
  by (simp add: dfd_def)

lemma dfd_if: "(P \<Longrightarrow> dfd N f) \<Longrightarrow> (\<not> P \<Longrightarrow> dfd N g) \<Longrightarrow> dfd N (if P then f else g)"
  by simp

lemma dfd_lookup:
  "dfd N (\<lambda>rest. case m of Some v1 \<Rightarrow> returns v1 rest | None \<Rightarrow> failed e)"
  by (cases m) (simp_all add: dfd_def returns_def)

lemma then_read_None:
  "then_read m k = None \<longleftrightarrow> m = None \<or> (\<exists>v r. m = Some (Inr (v, r)) \<and> k v r = None)"
  by (auto simp: then_read_def split: option.splits sum.splits)

lemma dfd_then:
  assumes p: "dfd N p" and e: "ext_ok st B c t p"
    and k: "\<And>v. if st then 0 < N \<longrightarrow> dfd (N - 1) (k v) else dfd N (k v)"
  shows "dfd N (\<lambda>rest. then_read (p rest) k)"
  unfolding dfd_def
proof (intro allI impI notI)
  fix x :: string
  assume x: "length x \<le> N" and "then_read (p (x @ [NUL])) k = None"
  with p obtain v r where 1: "p (x @ [NUL]) = Some (Inr (v, r))" and 2: "k v r = None"
    by (auto simp: then_read_None dfd_def)
  from ext_okD [OF e 1] obtain u y where 3: "x = u @ y" "r = y @ [NUL]" "st \<longrightarrow> u \<noteq> []"
    by blast
  show False
  proof (cases st)
    case True
    with 3 x have "0 < N" "length y \<le> N - 1" by (cases u; auto)+
    with k [of v] True have "k v (y @ [NUL]) \<noteq> None" by (auto simp: dfd_def)
    with 2 3 show False by simp
  next
    case False
    with k [of v] 3 x have "k v (y @ [NUL]) \<noteq> None" by (auto simp: dfd_def)
    with 2 3 show False by simp
  qed
qed

lemma dfd_on_char:
  assumes T: "\<not> T NUL"
    and Q: "\<And>ch. T ch \<Longrightarrow> 0 < N \<Longrightarrow> dfd (N - 1) (Q ch)"
    and R: "dfd N R"
  shows "dfd N (on_char T Q R)"
  unfolding dfd_def
proof (intro allI impI)
  fix x :: string assume x: "length x \<le> N"
  from R x have r: "R (x @ [NUL]) \<noteq> None" by (simp add: dfd_def)
  show "on_char T Q R (x @ [NUL]) \<noteq> None"
  proof (cases x)
    case Nil
    with T r show ?thesis by (auto simp: on_char_def)
  next
    case (Cons ch x')
    with x have "0 < N" "length x' \<le> N - 1" by auto
    with Q [of ch] have "T ch \<Longrightarrow> Q ch (x' @ [NUL]) \<noteq> None" by (auto simp: dfd_def)
    with r Cons show ?thesis
      by (auto simp: on_char_def)
  qed
qed

lemma dfd_bang_eq:
  assumes Q: "1 < N \<Longrightarrow> dfd (N - 2) Q" and R: "dfd N R"
  shows "dfd N (bang_eq Q R)"
  unfolding dfd_def
proof (intro allI impI)
  fix x :: string assume x: "length x \<le> N"
  from R x have r: "R (x @ [NUL]) \<noteq> None" by (simp add: dfd_def)
  show "bang_eq Q R (x @ [NUL]) \<noteq> None"
  proof (cases x)
    case Nil
    with r show ?thesis by (simp add: bang_eq_def)
  next
    case 1: (Cons ch x')
    show ?thesis
    proof (cases x')
      case Nil
      with r 1 show ?thesis by (auto simp: bang_eq_def)
    next
      case 2: (Cons c' x'')
      with 1 x have "1 < N" "length x'' \<le> N - 2" by auto
      with Q have "Q (x'' @ [NUL]) \<noteq> None" by (auto simp: dfd_def)
      with r 1 2 show ?thesis by (auto simp: bang_eq_def)
    qed
  qed
qed

lemma dfd_le: "dfd N p \<Longrightarrow> M \<le> N \<Longrightarrow> dfd M p"
  by (auto simp: dfd_def)

text \<open>The token readers always give a result.\<close>

lemma read_digits_defined: "read_digits tok rest \<noteq> None"
  by (induction rest arbitrary: tok) (simp_all add: returns_def)

lemma read_ident_defined: "read_ident tok rest \<noteq> None"
  by (induction rest arbitrary: tok) (simp_all add: returns_def)

lemma opt_next_defined: "opt_next P tok rest \<noteq> None"
  by (simp add: opt_next_def returns_def failed_def split: list.split)

lemma exponent_mark_defined: "exponent_mark tok rest \<noteq> None"
  by (auto simp: exponent_mark_def opt_next_def returns_def failed_def split: list.split)

lemma then_read_defined: "m \<noteq> None \<Longrightarrow> (\<And>v r. k v r \<noteq> None) \<Longrightarrow> then_read m k \<noteq> None"
  by (auto simp: then_read_None)

lemma read_double_defined: "read_double A rest \<noteq> None"
  unfolding read_double_def
  by (intro then_read_defined read_digits_defined opt_next_defined exponent_mark_defined)
     (simp add: returns_def failed_def split: option.split)

lemma dfd_read_double: "dfd N (read_double A)"
  by (simp add: dfd_def read_double_defined)

lemma dfd_read_ident: "dfd N (read_ident tok)"
  by (simp add: dfd_def read_ident_defined)

lemma dfd_step:
  assumes E: "ext_call c t call" and D: "dfd_call n call"
    and l: "strict l" "10 * N + level_rank (kind_of l) < n"
    and k: "\<And>v. 0 < N \<Longrightarrow> dfd (N - 1) (k v)"
  shows "dfd N (\<lambda>rest. then_read (call l rest) k)"
  by (rule dfd_then [OF dfd_callD [OF D l(2)] ext_callD [OF E]]) (use l k in auto)

lemma dfd_close_paren: "dfd N (close_paren e v)"
  unfolding close_paren_def
  by (intro dfd_on_char dfd_returning dfd_failed) simp

lemmas dfd_intros =
  dfd_on_char dfd_returns dfd_returning dfd_failed dfd_bang_eq dfd_close_paren dfd_if
  dfd_lookup dfd_read_double

lemma dfd_body:
  assumes E: "ext_call c t call" and D: "dfd_call n call"
  shows "dfd_call (Suc n) (reader_body call A variable_func)"
  unfolding dfd_call_def
proof (intro allI impI)
  fix l :: "'a level" and N
  assume n: "10 * N + level_rank (kind_of l) < Suc n"
  note step = dfd_step [OF E D] and callD = dfd_callD [OF D]
  show "dfd N (reader_body call A variable_func l)"
  proof (cases l)
    case READ_TERM
    with n show ?thesis
      unfolding reader_body_def [abs_def] READ_TERM read_term_def [abs_def]
      by (simp, intro step callD dfd_intros; simp)
  next
    case (TERM_LOOP v0)
    with n show ?thesis
      unfolding reader_body_def [abs_def] TERM_LOOP term_loop_canon
      by (simp, intro step callD dfd_intros; simp)
  next
    case READ_EXPR
    with n show ?thesis
      unfolding reader_body_def [abs_def] READ_EXPR read_expr_canon
      by (simp, intro step callD dfd_intros; simp)
  next
    case (EXPR_LOOP v0)
    with n show ?thesis
      unfolding reader_body_def [abs_def] EXPR_LOOP expr_loop_canon
      by (simp, intro step callD dfd_intros; simp)
  next
    case READ_BOOLEAN_COMPARISON
    with n show ?thesis
      unfolding reader_body_def [abs_def] READ_BOOLEAN_COMPARISON read_boolean_comparison_canon
      by (simp, intro step callD dfd_intros; simp)
  next
    case READ_BOOLEAN_EQUALITY
    with n show ?thesis
      unfolding reader_body_def [abs_def] READ_BOOLEAN_EQUALITY read_boolean_equality_canon
      by (simp, intro step callD dfd_intros; simp)
  next
    case READ_BOOLEAN_AND
    with n show ?thesis
      unfolding reader_body_def [abs_def] READ_BOOLEAN_AND read_boolean_and_def [abs_def]
      by (simp, intro step callD dfd_intros; simp)
  next
    case (AND_LOOP v0)
    with n show ?thesis
      unfolding reader_body_def [abs_def] AND_LOOP and_loop_canon
      by (simp, intro step callD dfd_intros; simp)
  next
    case READ_BOOLEAN_OR
    with n show ?thesis
      unfolding reader_body_def [abs_def] READ_BOOLEAN_OR read_boolean_or_def [abs_def]
      by (simp, intro step callD dfd_intros; simp)
  next
    case (OR_LOOP v0)
    with n show ?thesis
      unfolding reader_body_def [abs_def] OR_LOOP or_loop_canon
      by (simp, intro step callD dfd_intros; simp)
  next
    case READ_ARGUMENT
    with n show ?thesis
      unfolding reader_body_def [abs_def] READ_ARGUMENT read_argument_canon
      by (simp, intro step callD dfd_intros; simp)
  next
    case READ_BUILTIN
    have id: "dfd M (\<lambda>cs. then_read (read_ident [ch] cs) (ident_k call A variable_func))"
      if "10 * M + 10 \<le> n" for M ch
    proof (rule dfd_then [OF dfd_read_ident
          lex_ok_ext [OF lex_ok_ident [where B = "\<lambda>_. True" and c = c and t = t]]])
      fix token
      show "if False then 0 < M \<longrightarrow> dfd (M - 1) (ident_k call A variable_func token)
            else dfd M (ident_k call A variable_func token)"
        using that unfolding ident_k_def two_arguments_def [abs_def]
        apply simp
        apply (intro conjI impI step callD dfd_intros)
        apply simp_all
        done
    qed simp
    from READ_BUILTIN n show ?thesis
      unfolding reader_body_def [abs_def] READ_BUILTIN read_builtin_canon
      by (simp, intro id dfd_intros; simp)
  next
    case READ_PARENTHESIS
    with n show ?thesis
      unfolding reader_body_def [abs_def] READ_PARENTHESIS read_parenthesis_canon
      by (simp, intro step callD dfd_intros; simp)
  next
    case READ_UNARY
    with n show ?thesis
      unfolding reader_body_def [abs_def] READ_UNARY read_unary_canon
      by (simp, intro step callD dfd_intros; simp)
  next
    case READ_POWER
    with n show ?thesis
      unfolding reader_body_def [abs_def] READ_POWER read_power_def [abs_def]
      by (simp, intro step callD dfd_intros; simp)
  next
    case (POWER_LOOP v0 s)
    with n show ?thesis
      unfolding reader_body_def [abs_def] POWER_LOOP power_loop_canon
      by (simp, intro step callD dfd_intros; simp)
  qed
qed

lemma dfd_call_reader: "dfd_call n (reader n A variable_func)"
proof (induction n)
  case 0
  show ?case by (simp add: dfd_call_def)
next
  case (Suc n)
  then show ?case by (simp add: dfd_body [OF ext_call_reader])
qed

lemma reader_defined:
  "10 * length x + level_rank (kind_of l) < n \<Longrightarrow> reader n A variable_func l (x @ [NUL]) \<noteq> None"
  using dfd_call_reader [of n A variable_func] by (auto simp: dfd_call_def dfd_def)

lemma reader_det:
  assumes "reader n A vf l rest = Some r" and "reader m A vf l rest = Some r'"
  shows "r = r'"
  using reader_mono [OF assms(1), of "max n m"] reader_mono [OF assms(2), of "max n m"]
  by simp

lemma reader_fuel:
  assumes "reader n A vf READ_EXPR (x @ [NUL]) = Some r"
  shows "reader (10 * length (x @ [NUL])) A vf READ_EXPR (x @ [NUL]) = Some r"
proof -
  have "reader (10 * length (x @ [NUL])) A vf READ_EXPR (x @ [NUL]) \<noteq> None"
    by (rule reader_defined) simp
  then obtain r' where r': "reader (10 * length (x @ [NUL])) A vf READ_EXPR (x @ [NUL]) = Some r'"
    by blast
  with reader_det [OF assms r'] show ?thesis by simp
qed

lemma parse_expression_returns:
  "\<exists>v e. gst_validate_utils_parse_expression A vf expr = Some (v, e)"
proof -
  have "reader (10 * length (filter (\<lambda>c. c \<noteq> CHR '' '') expr @ [NUL])) A vf READ_EXPR
          (filter (\<lambda>c. c \<noteq> CHR '' '') expr @ [NUL]) \<noteq> None"
    by (rule reader_defined) simp
  then show ?thesis
    by (auto simp: gst_validate_utils_parse_expression_def parse_def Let_def
        split: option.splits sum.splits)
qed

lemma valI:
  assumes "reader n A vf READ_EXPR (filter (\<lambda>c. c \<noteq> CHR '' '') expr @ [NUL]) = Some (Inr (v, [NUL]))"
  shows "gst_validate_utils_parse_expression A vf expr = Some (v, None)"
  using reader_fuel [OF assms]
  by (simp add: gst_validate_utils_parse_expression_def parse_def Let_def)

lemma errI:
  assumes "reader n A vf READ_EXPR (filter (\<lambda>c. c \<noteq> CHR '' '') expr @ [NUL]) = Some (Inl e)"
  shows "gst_validate_utils_parse_expression A vf expr = Some (of_int64 A (- 1), Some e)"
  using reader_fuel [OF assms]
  by (simp add: gst_validate_utils_parse_expression_def parse_def Let_def)

lemma restI:
  assumes "reader n A vf READ_EXPR (filter (\<lambda>c. c \<noteq> CHR '' '') expr @ [NUL]) = Some (Inr (v, r))"
    and "1 < length r"
  shows "gst_validate_utils_parse_expression A vf expr
         = Some (of_int64 A (- 1), Some Failed_to_reach_end)"
  using reader_fuel [OF assms(1)] assms(2)
  by (simp add: gst_validate_utils_parse_expression_def parse_def Let_def)

lemma valD:
  assumes "gst_validate_utils_parse_expression A vf expr = Some (v, None)"
  shows "\<exists>n. reader n A vf READ_EXPR (filter (\<lambda>c. c \<noteq> CHR '' '') expr @ [NUL])
              = Some (Inr (v, [NUL]))"
proof -
  let ?x = "filter (\<lambda>c. c \<noteq> CHR '' '') expr"
  let ?n = "10 * length (?x @ [NUL])"
  from assms obtain r where r: "reader ?n A vf READ_EXPR (?x @ [NUL]) = Some (Inr (v, r))"
    and l: "\<not> 1 < length r"
    by (auto simp: gst_validate_utils_parse_expression_def parse_def Let_def
        split: option.splits sum.splits if_splits)
  from ext_okD [OF ext_callD [OF ext_call_reader [of NUL "[]" ?n A vf], of READ_EXPR] r]
  obtain u y where "r = y @ [NUL]" by blast
  with l have "r = [NUL]" by simp
  with r show ?thesis by blast
qed

lemma expr_ext:
  assumes r: "reader n A vf READ_EXPR (x @ [NUL]) = Some (Inr (v, [NUL]))"
    and c: "\<not> bad K_EXPR c" "side x c"
  shows "reader n A vf READ_EXPR (x @ c # t) = Some (Inr (v, c # t))"
proof -
  from ext_okD [OF ext_callD [OF ext_call_reader [of c t n A vf], of READ_EXPR] r]
  obtain u y where "[NUL] = y @ [NUL]"
    and e: "(y = [] \<longrightarrow> \<not> bad (kind_of (READ_EXPR :: 'a level)) c) \<longrightarrow> side x c \<longrightarrow>
        reader n A vf READ_EXPR (x @ c # t) = Some (Inr (v, y @ c # t))"
    by blast
  then have "y = []" by simp
  with e c show ?thesis by simp
qed

lemma reader_numeral:
  "reader (numeral k) A vf = reader_body (reader (pred_numeral k) A vf) A vf"
  by (simp add: numeral_eq_Suc)

lemmas level_defs =
  reader_body_def read_term_def term_loop_def read_expr_def expr_loop_def
  read_boolean_comparison_def read_boolean_equality_def read_boolean_and_def and_loop_def
  read_boolean_or_def or_loop_def read_argument_def read_builtin_def read_parenthesis_def
  read_unary_def read_power_def power_loop_def

lemmas lex_defs =
  read_double_def opt_next_def exponent_mark_def is_sign_def isdigit_def isalpha_def isident_def
  NUL_def MIN_macro_def MAX_macro_def bool_val_def

lemmas real_defs =
  real_ops_def scan_real_def strip_sign_def digits_val_def digit_val_def pow_real_def no_vars_def

lemma not_bad_EXPR [simp]:
  "\<not> bad K_EXPR (CHR '','')" "\<not> bad K_EXPR (CHR '')'')" "\<not> bad K_EXPR (CHR ''<'')"
  "\<not> bad K_EXPR (CHR ''>'')" "\<not> bad K_EXPR (CHR ''='')" "\<not> bad K_EXPR (CHR ''!'')"
  "\<not> bad K_EXPR (CHR ''&'')" "\<not> bad K_EXPR (CHR ''|'')"
  by (simp_all add: bad_def B0_def isdigit_def isalpha_def)

lemma side_simps [simp]:
  "side x (CHR '','')" "side x (CHR '')'')" "side x (CHR ''<'')" "side x (CHR ''>'')"
  "side x (CHR ''!'')" "side x (CHR ''&'')" "side x (CHR ''|'')"
  by (simp_all add: side_def)

lemma then_read_Some [simp]:
  "then_read (Some (Inr (v, r))) k = k v r" "then_read (Some (Inl e)) k = Some (Inl e)"
  by (simp_all add: then_read_def)

lemma two_args:
  assumes a: "gst_validate_utils_parse_expression A vf a = Some (va, None)"
    and b: "gst_validate_utils_parse_expression A vf b = Some (vb, None)"
  obtains n where
    "reader n A vf READ_EXPR (filter (\<lambda>c. c \<noteq> CHR '' '') a @ CHR '','' # t)
       = Some (Inr (va, CHR '','' # t))"
    "reader n A vf READ_EXPR (filter (\<lambda>c. c \<noteq> CHR '' '') b @ CHR '')'' # t')
       = Some (Inr (vb, CHR '')'' # t'))"
proof -
  from valD [OF a] obtain na where
    na: "reader na A vf READ_EXPR (filter (\<lambda>c. c \<noteq> CHR '' '') a @ [NUL]) = Some (Inr (va, [NUL]))"
    by blast
  from valD [OF b] obtain nb where
    nb: "reader nb A vf READ_EXPR (filter (\<lambda>c. c \<noteq> CHR '' '') b @ [NUL]) = Some (Inr (vb, [NUL]))"
    by blast
  show thesis
    by (rule that [of "max na nb"])
      (simp_all add: expr_ext [OF reader_mono [OF na]] expr_ext [OF reader_mono [OF nb]])
qed

lemma min_hom:
  assumes a: "gst_validate_utils_parse_expression A vf a = Some (va, None)"
    and b: "gst_validate_utils_parse_expression A vf b = Some (vb, None)"
  shows "gst_validate_utils_parse_expression A vf (''min('' @ a @ '','' @ b @ '')'')
         = Some (MIN_macro A va vb, None)"
proof -
  from two_args [OF a b, of "filter (\<lambda>c. c \<noteq> CHR '' '') b @ [CHR '')'', NUL]" "[NUL]"]
  obtain n where
    "reader n A vf READ_EXPR (filter (\<lambda>c. c \<noteq> CHR '' '') a @
         CHR '','' # filter (\<lambda>c. c \<noteq> CHR '' '') b @ [CHR '')'', NUL])
       = Some (Inr (va, CHR '','' # filter (\<lambda>c. c \<noteq> CHR '' '') b @ [CHR '')'', NUL]))"
    "reader n A vf READ_EXPR (filter (\<lambda>c. c \<noteq> CHR '' '') b @ [CHR '')'', NUL])
       = Some (Inr (vb, [CHR '')'', NUL]))"
    by blast
  then show ?thesis
    by (intro valI [where n = "Suc (Suc (Suc (Suc (Suc (Suc (Suc n))))))"])
      (simp add: level_defs isalpha_def isident_def isdigit_def returns_def)
qed

lemma not_bad_TERM [simp]: "\<not> bad K_TERM (CHR ''+'')" "\<not> bad K_TERM (CHR ''-'')"
  by (simp_all add: bad_def B0_def isdigit_def isalpha_def)

lemma term_then_loop:
  assumes r: "then_read (reader n A vf READ_TERM (x1 @ [NUL]))
                (\<lambda>v1. reader n A vf (EXPR_LOOP (f v1))) = Some (Inr (v', [NUL]))"
    and c: "c = CHR ''+'' \<or> c = CHR ''-''" and s: "side x1 c"
    and IH: "\<And>y v. reader n A vf (EXPR_LOOP v) (y @ [NUL]) = Some (Inr (v', [NUL])) \<Longrightarrow>
               side y c \<Longrightarrow> reader (n + m) A vf (EXPR_LOOP v) (y @ c # t) = Some R"
  shows "then_read (reader (n + m) A vf READ_TERM (x1 @ c # t))
           (\<lambda>v1. reader (n + m) A vf (EXPR_LOOP (f v1))) = Some R"
proof -
  from r obtain v1 r1 where t1: "reader n A vf READ_TERM (x1 @ [NUL]) = Some (Inr (v1, r1))"
    and l1: "reader n A vf (EXPR_LOOP (f v1)) r1 = Some (Inr (v', [NUL]))"
    by (auto simp: then_read_Inr)
  from ext_okD [OF ext_callD [OF ext_call_reader [of c t n A vf], of READ_TERM] t1]
  obtain u y where x1: "x1 = u @ y" and r1: "r1 = y @ [NUL]"
    and e: "(y = [] \<longrightarrow> \<not> bad (kind_of (READ_TERM :: 'a level)) c) \<longrightarrow> side x1 c \<longrightarrow>
        reader n A vf READ_TERM (x1 @ c # t) = Some (Inr (v1, y @ c # t))"
    by blast
  from e c s have "reader n A vf READ_TERM (x1 @ c # t) = Some (Inr (v1, y @ c # t))"
    by auto
  from reader_mono [OF this, of "n + m"]
  have 1: "reader (n + m) A vf READ_TERM (x1 @ c # t) = Some (Inr (v1, y @ c # t))" by simp
  from s x1 have "side y c" by (simp add: side_suffix)
  from IH [OF l1 [unfolded r1] this] 1 show ?thesis by simp
qed

lemma expr_loop_ext:
  assumes "reader n A vf (EXPR_LOOP v) (x @ [NUL]) = Some (Inr (v', [NUL]))"
    and c: "c = CHR ''+'' \<or> c = CHR ''-''" and "side x c"
    and m: "reader m A vf (EXPR_LOOP v') (c # t) = Some R"
  shows "reader (n + m) A vf (EXPR_LOOP v) (x @ c # t) = Some R"
  using assms(1,3)
proof (induction n arbitrary: x v)
  case 0
  then show ?case by simp
next
  case (Suc n)
  show ?case
  proof (cases x)
    case Nil
    with Suc.prems have "v' = v"
      by (simp add: reader_body_def expr_loop_def returns_def)
    with reader_mono [OF m, of "Suc n + m"] Nil show ?thesis by simp
  next
    case (Cons ch x1)
    with Suc.prems(2) have s1: "side x1 c"
      using side_suffix [of "[ch]" x1 c] by simp
    note tl = term_then_loop [OF _ c s1 Suc.IH]
    from Suc.prems(1) Cons show ?thesis
      by (auto simp: reader_body_def expr_loop_def returns_def intro!: tl split: if_splits)
  qed
qed

lemma read_expr_ext:
  assumes r: "reader n A vf READ_EXPR (x @ [NUL]) = Some (Inr (v', [NUL]))"
    and c: "c = CHR ''+'' \<or> c = CHR ''-''" and s: "side x c"
    and m: "reader m A vf (EXPR_LOOP v') (c # t) = Some R"
  shows "reader (n + m) A vf READ_EXPR (x @ c # t) = Some R"
proof (cases n)
  case 0
  with r show ?thesis by simp
next
  case (Suc k)
  note IH = expr_loop_ext [OF _ c _ m]
  show ?thesis
  proof (cases x)
    case Nil
    from ext_okD [OF ext_callD [OF ext_call_reader [of c t n A vf], of READ_EXPR] r] Nil
    show ?thesis by simp
  next
    case (Cons ch x1)
    with s have s1: "side x1 c"
      using side_suffix [of "[ch]" x1 c] by simp
    note tl = term_then_loop [OF _ c s1 IH]
    note tl' = term_then_loop [OF _ c s IH]
    from r Cons Suc show ?thesis
      apply (auto simp: reader_body_def read_expr_def returns_def intro!: tl split: if_splits)
      using tl' [where f = "\<lambda>v. v"]
      apply simp
      done
  qed
qed

lemma validD:
  assumes a: "gst_validate_utils_parse_expression A vf a = Some (va, None)"
  shows "\<exists>n. (\<forall>k c t. n \<le> k \<longrightarrow> \<not> bad K_EXPR c \<longrightarrow> side (filter (\<lambda>c. c \<noteq> CHR '' '') a) c \<longrightarrow>
       reader k A vf READ_EXPR (filter (\<lambda>c. c \<noteq> CHR '' '') a @ c # t) = Some (Inr (va, c # t))) \<and>
    (\<forall>k. n \<le> k \<longrightarrow> reader k A vf READ_EXPR (filter (\<lambda>c. c \<noteq> CHR '' '') a @ [NUL]) = Some (Inr (va, [NUL])))"
proof -
  from valD [OF a] obtain na where
    na: "reader na A vf READ_EXPR (filter (\<lambda>c. c \<noteq> CHR '' '') a @ [NUL]) = Some (Inr (va, [NUL]))"
    by blast
  show ?thesis
    by (rule exI [of _ na]) (simp add: expr_ext [OF reader_mono [OF na]] reader_mono [OF na])
qed

lemma no_start:
  "l = READ_EXPR \<or> l = READ_TERM \<or> l = READ_POWER \<or> l = READ_UNARY
         \<or> l = READ_PARENTHESIS \<or> l = READ_BUILTIN \<Longrightarrow>
   reader n A vf l (CHR ''='' # t) \<noteq> Some (Inr (v, r))"
proof (induction n arbitrary: l v r)
  case 0
  then show ?case by simp
next
  case (Suc n)
  have b: "read_builtin call A vf (CHR ''='' # t) \<noteq> Some (Inr (v, r))" for call v r
    by (simp add: read_builtin_def read_double_def opt_next_def exponent_mark_def is_sign_def
        isdigit_def isalpha_def failed_def returns_def)
  from Suc.prems show ?case
  proof (elim disjE)
    assume "l = READ_BUILTIN"
    with b show ?thesis by (simp add: reader_body_def)
  next
    assume "l = READ_EXPR"
    with Suc.IH [of READ_TERM] show ?thesis
      by (simp add: reader_body_def read_expr_def then_read_Inr)
  next
    assume "l = READ_TERM"
    with Suc.IH [of READ_POWER] show ?thesis
      by (simp add: reader_body_def read_term_def then_read_Inr)
  next
    assume "l = READ_POWER"
    with Suc.IH [of READ_UNARY] show ?thesis
      by (simp add: reader_body_def read_power_def then_read_Inr)
  next
    assume "l = READ_UNARY"
    with Suc.IH [of READ_PARENTHESIS] show ?thesis
      by (simp add: reader_body_def read_unary_def then_read_Inr)
  next
    assume "l = READ_PARENTHESIS"
    with Suc.IH [of READ_BUILTIN] show ?thesis
      by (simp add: reader_body_def read_parenthesis_def then_read_Inr)
  qed
qed

lemma valid_start:
  assumes a: "gst_validate_utils_parse_expression A vf a = Some (va, None)"
  obtains c t where "filter (\<lambda>c. c \<noteq> CHR '' '') a = c # t" "c \<noteq> CHR ''=''"
proof -
  from valD [OF a] obtain n where
    n: "reader n A vf READ_EXPR (filter (\<lambda>c. c \<noteq> CHR '' '') a @ [NUL]) = Some (Inr (va, [NUL]))"
    by blast
  from ext_okD [OF ext_callD [OF ext_call_reader [of NUL "[]" n A vf], of READ_EXPR] n]
  have "filter (\<lambda>c. c \<noteq> CHR '' '') a \<noteq> []" by auto
  then obtain c t where ct: "filter (\<lambda>c. c \<noteq> CHR '' '') a = c # t"
    by (cases "filter (\<lambda>c. c \<noteq> CHR '' '') a") auto
  with n no_start [of READ_EXPR n A vf "t @ [NUL]" va "[NUL]"] have "c \<noteq> CHR ''=''" by auto
  with ct show thesis by (rule that)
qed

lemmas run_simps = level_defs isalpha_def isident_def isdigit_def returns_def

lemma valid2:
  assumes a: "gst_validate_utils_parse_expression A vf a = Some (va, None)"
    and b: "gst_validate_utils_parse_expression A vf b = Some (vb, None)"
  shows "\<exists>n.
    (\<forall>k c t. n \<le> k \<longrightarrow> \<not> bad K_EXPR c \<longrightarrow> side (filter (\<lambda>c. c \<noteq> CHR '' '') a) c \<longrightarrow>
       reader k A vf READ_EXPR (filter (\<lambda>c. c \<noteq> CHR '' '') a @ c # t) = Some (Inr (va, c # t))) \<and>
    (\<forall>k c t. n \<le> k \<longrightarrow> \<not> bad K_EXPR c \<longrightarrow> side (filter (\<lambda>c. c \<noteq> CHR '' '') b) c \<longrightarrow>
       reader k A vf READ_EXPR (filter (\<lambda>c. c \<noteq> CHR '' '') b @ c # t) = Some (Inr (vb, c # t))) \<and>
    (\<forall>k. n \<le> k \<longrightarrow> reader k A vf READ_EXPR (filter (\<lambda>c. c \<noteq> CHR '' '') a @ [NUL]) = Some (Inr (va, [NUL])))"
proof -
  from validD [OF a] obtain n where
    n: "\<forall>k c t. n \<le> k \<longrightarrow> \<not> bad K_EXPR c \<longrightarrow> side (filter (\<lambda>c. c \<noteq> CHR '' '') a) c \<longrightarrow>
       reader k A vf READ_EXPR (filter (\<lambda>c. c \<noteq> CHR '' '') a @ c # t) = Some (Inr (va, c # t))"
       "\<forall>k. n \<le> k \<longrightarrow> reader k A vf READ_EXPR (filter (\<lambda>c. c \<noteq> CHR '' '') a @ [NUL]) = Some (Inr (va, [NUL]))"
    by blast
  from validD [OF b] obtain m where
    m: "\<forall>k c t. m \<le> k \<longrightarrow> \<not> bad K_EXPR c \<longrightarrow> side (filter (\<lambda>c. c \<noteq> CHR '' '') b) c \<longrightarrow>
       reader k A vf READ_EXPR (filter (\<lambda>c. c \<noteq> CHR '' '') b @ c # t) = Some (Inr (vb, c # t))"
    by blast
  show ?thesis
    by (rule exI [of _ "max n m"]) (simp add: n m)
qed

lemma max_hom:
  assumes a: "gst_validate_utils_parse_expression A vf a = Some (va, None)"
    and b: "gst_validate_utils_parse_expression A vf b = Some (vb, None)"
  shows "gst_validate_utils_parse_expression A vf (''max('' @ a @ '','' @ b @ '')'')
         = Some (MAX_macro A va vb, None)"
proof -
  from valid2 [OF a b] obtain n where
    n: "\<forall>k c t. n \<le> k \<longrightarrow> \<not> bad K_EXPR c \<longrightarrow> side (filter (\<lambda>c. c \<noteq> CHR '' '') a) c \<longrightarrow>
       reader k A vf READ_EXPR (filter (\<lambda>c. c \<noteq> CHR '' '') a @ c # t) = Some (Inr (va, c # t))"
    "\<forall>k c t. n \<le> k \<longrightarrow> \<not> bad K_EXPR c \<longrightarrow> side (filter (\<lambda>c. c \<noteq> CHR '' '') b) c \<longrightarrow>
       reader k A vf READ_EXPR (filter (\<lambda>c. c \<noteq> CHR '' '') b @ c # t) = Some (Inr (vb, c # t))"
    by blast
  have "reader n A vf READ_EXPR (filter (\<lambda>c. c \<noteq> CHR '' '') a @ CHR '','' # filter (\<lambda>c. c \<noteq> CHR '' '') b @ [CHR '')'', NUL])
          = Some (Inr (va, CHR '','' # filter (\<lambda>c. c \<noteq> CHR '' '') b @ [CHR '')'', NUL]))"
    "reader n A vf READ_EXPR (filter (\<lambda>c. c \<noteq> CHR '' '') b @ [CHR '')'', NUL]) = Some (Inr (vb, [CHR '')'', NUL]))"
    by (simp_all add: n)
  then show ?thesis
    by (intro valI [where n = "Suc (Suc (Suc (Suc (Suc (Suc (Suc (n)))))))"]) (simp add: run_simps)
qed

lemma plus_hom:
  assumes a: "gst_validate_utils_parse_expression A vf a = Some (va, None)"
    and b: "gst_validate_utils_parse_expression A vf b = Some (vb, None)"
    and e: "last (filter (\<lambda>c. c \<noteq> CHR '' '') a) \<noteq> CHR ''e''" "last (filter (\<lambda>c. c \<noteq> CHR '' '') a) \<noteq> CHR ''E''"
  shows "gst_validate_utils_parse_expression A vf (a @ ''+('' @ b @ '')'')
         = Some (d_add A va vb, None)"
proof -
  from valid2 [OF a b] obtain n where
    n: "\<forall>k. n \<le> k \<longrightarrow> reader k A vf READ_EXPR (filter (\<lambda>c. c \<noteq> CHR '' '') a @ [NUL]) = Some (Inr (va, [NUL]))"
    "\<forall>k c t. n \<le> k \<longrightarrow> \<not> bad K_EXPR c \<longrightarrow> side (filter (\<lambda>c. c \<noteq> CHR '' '') b) c \<longrightarrow>
       reader k A vf READ_EXPR (filter (\<lambda>c. c \<noteq> CHR '' '') b @ c # t) = Some (Inr (vb, c # t))"
    by blast
  have "reader n A vf READ_EXPR (filter (\<lambda>c. c \<noteq> CHR '' '') b @ [CHR '')'', NUL]) = Some (Inr (vb, [CHR '')'', NUL]))"
    by (simp add: n)
  then have "reader (Suc (Suc (Suc (Suc (Suc (Suc (Suc (Suc (Suc (n)))))))))) A vf
          (EXPR_LOOP va) (CHR ''+'' # CHR ''('' # filter (\<lambda>c. c \<noteq> CHR '' '') b @ [CHR '')'', NUL])
        = Some (Inr (d_add A va vb, [NUL]))"
    by (simp add: run_simps)
  from read_expr_ext [OF n(1) [rule_format, OF order_refl] _ _ this] e
  have "reader (n + Suc (Suc (Suc (Suc (Suc (Suc (Suc (Suc (Suc (n)))))))))) A vf READ_EXPR
          (filter (\<lambda>c. c \<noteq> CHR '' '') a @ CHR ''+'' # CHR ''('' #
           filter (\<lambda>c. c \<noteq> CHR '' '') b @ [CHR '')'', NUL])
        = Some (Inr (d_add A va vb, [NUL]))"
    by (simp add: side_def del: reader.simps)
  then show ?thesis
    by (intro valI [where n = "n + Suc (Suc (Suc (Suc (Suc (Suc (Suc (Suc (Suc (n)))))))))"])
      (simp del: reader.simps)
qed

lemma reader_unfold:
  "reader (Suc k) A vf READ_TERM rest = reader_body (reader k A vf) A vf READ_TERM rest"
  "reader (Suc k) A vf (TERM_LOOP v) rest = reader_body (reader k A vf) A vf (TERM_LOOP v) rest"
  "reader (Suc k) A vf (EXPR_LOOP v) rest = reader_body (reader k A vf) A vf (EXPR_LOOP v) rest"
  "reader (Suc k) A vf READ_BOOLEAN_COMPARISON rest = reader_body (reader k A vf) A vf READ_BOOLEAN_COMPARISON rest"
  "reader (Suc k) A vf READ_BOOLEAN_EQUALITY rest = reader_body (reader k A vf) A vf READ_BOOLEAN_EQUALITY rest"
  "reader (Suc k) A vf READ_BOOLEAN_AND rest = reader_body (reader k A vf) A vf READ_BOOLEAN_AND rest"
  "reader (Suc k) A vf (AND_LOOP v) rest = reader_body (reader k A vf) A vf (AND_LOOP v) rest"
  "reader (Suc k) A vf READ_BOOLEAN_OR rest = reader_body (reader k A vf) A vf READ_BOOLEAN_OR rest"
  "reader (Suc k) A vf (OR_LOOP v) rest = reader_body (reader k A vf) A vf (OR_LOOP v) rest"
  "reader (Suc k) A vf READ_ARGUMENT rest = reader_body (reader k A vf) A vf READ_ARGUMENT rest"
  "reader (Suc k) A vf READ_BUILTIN rest = reader_body (reader k A vf) A vf READ_BUILTIN rest"
  "reader (Suc k) A vf READ_PARENTHESIS rest = reader_body (reader k A vf) A vf READ_PARENTHESIS rest"
  "reader (Suc k) A vf READ_UNARY rest = reader_body (reader k A vf) A vf READ_UNARY rest"
  "reader (Suc k) A vf READ_POWER rest = reader_body (reader k A vf) A vf READ_POWER rest"
  "reader (Suc k) A vf (POWER_LOOP v s) rest = reader_body (reader k A vf) A vf (POWER_LOOP v s) rest"
  by simp_all

lemma read_expr_paren:
  "reader (Suc k) A vf READ_EXPR (CHR ''('' # t) =
     then_read (reader k A vf READ_TERM (CHR ''('' # t)) (\<lambda>v0. reader k A vf (EXPR_LOOP v0))"
  by (simp add: reader_body_def read_expr_def)

lemmas paren_simps = reader_unfold read_expr_paren run_simps

lemma paren_lt:
  assumes a: "gst_validate_utils_parse_expression A vf a = Some (va, None)"
    and b: "gst_validate_utils_parse_expression A vf b = Some (vb, None)"
  shows "gst_validate_utils_parse_expression A vf (''('' @ a @ ''<'' @ b @ '')'')
         = Some (bool_val A (d_lt A va vb), None)"
proof -
  from valid2 [OF a b] obtain n where
    n: "\<forall>k c t. n \<le> k \<longrightarrow> \<not> bad K_EXPR c \<longrightarrow> side (filter (\<lambda>c. c \<noteq> CHR '' '') a) c \<longrightarrow>
       reader k A vf READ_EXPR (filter (\<lambda>c. c \<noteq> CHR '' '') a @ c # t) = Some (Inr (va, c # t))"
    "\<forall>k c t. n \<le> k \<longrightarrow> \<not> bad K_EXPR c \<longrightarrow> side (filter (\<lambda>c. c \<noteq> CHR '' '') b) c \<longrightarrow>
       reader k A vf READ_EXPR (filter (\<lambda>c. c \<noteq> CHR '' '') b @ c # t) = Some (Inr (vb, c # t))"
    by blast
  from valid_start [OF b] obtain c0 t0 where b0: "filter (\<lambda>c. c \<noteq> CHR '' '') b = c0 # t0" "c0 \<noteq> CHR ''=''"
    by blast
  have "reader (n) A vf READ_EXPR (filter (\<lambda>c. c \<noteq> CHR '' '') a @ CHR ''<'' # filter (\<lambda>c. c \<noteq> CHR '' '') b @ [CHR '')'', NUL])
          = Some (Inr (va, CHR ''<'' # filter (\<lambda>c. c \<noteq> CHR '' '') b @ [CHR '')'', NUL]))"
    "reader (Suc (n)) A vf READ_EXPR (filter (\<lambda>c. c \<noteq> CHR '' '') a @ CHR ''<'' # filter (\<lambda>c. c \<noteq> CHR '' '') b @ [CHR '')'', NUL])
          = Some (Inr (va, CHR ''<'' # filter (\<lambda>c. c \<noteq> CHR '' '') b @ [CHR '')'', NUL]))"
    "reader (Suc (Suc (n))) A vf READ_EXPR (filter (\<lambda>c. c \<noteq> CHR '' '') a @ CHR ''<'' # filter (\<lambda>c. c \<noteq> CHR '' '') b @ [CHR '')'', NUL])
          = Some (Inr (va, CHR ''<'' # filter (\<lambda>c. c \<noteq> CHR '' '') b @ [CHR '')'', NUL]))"
    "reader (n) A vf READ_EXPR (filter (\<lambda>c. c \<noteq> CHR '' '') b @ [CHR '')'', NUL]) = Some (Inr (vb, [CHR '')'', NUL]))"
    "reader (Suc (n)) A vf READ_EXPR (filter (\<lambda>c. c \<noteq> CHR '' '') b @ [CHR '')'', NUL]) = Some (Inr (vb, [CHR '')'', NUL]))"
    "reader (Suc (Suc (n))) A vf READ_EXPR (filter (\<lambda>c. c \<noteq> CHR '' '') b @ [CHR '')'', NUL]) = Some (Inr (vb, [CHR '')'', NUL]))"
    by (simp_all add: n del: reader.simps)
  then show ?thesis unfolding b0
    by (intro valI [where n = "Suc (Suc (Suc (Suc (Suc (Suc (Suc (Suc (Suc (Suc (Suc (n)))))))))))"]) (simp add: paren_simps b0 del: reader.simps)
qed

lemma paren_le:
  assumes a: "gst_validate_utils_parse_expression A vf a = Some (va, None)"
    and b: "gst_validate_utils_parse_expression A vf b = Some (vb, None)"
  shows "gst_validate_utils_parse_expression A vf (''('' @ a @ ''<='' @ b @ '')'')
         = Some (bool_val A (d_le A va vb), None)"
proof -
  from valid2 [OF a b] obtain n where
    n: "\<forall>k c t. n \<le> k \<longrightarrow> \<not> bad K_EXPR c \<longrightarrow> side (filter (\<lambda>c. c \<noteq> CHR '' '') a) c \<longrightarrow>
       reader k A vf READ_EXPR (filter (\<lambda>c. c \<noteq> CHR '' '') a @ c # t) = Some (Inr (va, c # t))"
    "\<forall>k c t. n \<le> k \<longrightarrow> \<not> bad K_EXPR c \<longrightarrow> side (filter (\<lambda>c. c \<noteq> CHR '' '') b) c \<longrightarrow>
       reader k A vf READ_EXPR (filter (\<lambda>c. c \<noteq> CHR '' '') b @ c # t) = Some (Inr (vb, c # t))"
    by blast
  from valid_start [OF b] obtain c0 t0 where b0: "filter (\<lambda>c. c \<noteq> CHR '' '') b = c0 # t0" "c0 \<noteq> CHR ''=''"
    by blast
  have "reader (n) A vf READ_EXPR (filter (\<lambda>c. c \<noteq> CHR '' '') a @ CHR ''<'' # CHR ''='' # filter (\<lambda>c. c \<noteq> CHR '' '') b @ [CHR '')'', NUL])
          = Some (Inr (va, CHR ''<'' # CHR ''='' # filter (\<lambda>c. c \<noteq> CHR '' '') b @ [CHR '')'', NUL]))"
    "reader (Suc (n)) A vf READ_EXPR (filter (\<lambda>c. c \<noteq> CHR '' '') a @ CHR ''<'' # CHR ''='' # filter (\<lambda>c. c \<noteq> CHR '' '') b @ [CHR '')'', NUL])
          = Some (Inr (va, CHR ''<'' # CHR ''='' # filter (\<lambda>c. c \<noteq> CHR '' '') b @ [CHR '')'', NUL]))"
    "reader (Suc (Suc (n))) A vf READ_EXPR (filter (\<lambda>c. c \<noteq> CHR '' '') a @ CHR ''<'' # CHR ''='' # filter (\<lambda>c. c \<noteq> CHR '' '') b @ [CHR '')'', NUL])
          = Some (Inr (va, CHR ''<'' # CHR ''='' # filter (\<lambda>c. c \<noteq> CHR '' '') b @ [CHR '')'', NUL]))"
    "reader (n) A vf READ_EXPR (filter (\<lambda>c. c \<noteq> CHR '' '') b @ [CHR '')'', NUL]) = Some (Inr (vb, [CHR '')'', NUL]))"
    "reader (Suc (n)) A vf READ_EXPR (filter (\<lambda>c. c \<noteq> CHR '' '') b @ [CHR '')'', NUL]) = Some (Inr (vb, [CHR '')'', NUL]))"
    "reader (Suc (Suc (n))) A vf READ_EXPR (filter (\<lambda>c. c \<noteq> CHR '' '') b @ [CHR '')'', NUL]) = Some (Inr (vb, [CHR '')'', NUL]))"
    by (simp_all add: n del: reader.simps)
  then show ?thesis unfolding b0
    by (intro valI [where n = "Suc (Suc (Suc (Suc (Suc (Suc (Suc (Suc (Suc (Suc (Suc (n)))))))))))"]) (simp add: paren_simps b0 del: reader.simps)
qed

lemma paren_gt:
  assumes a: "gst_validate_utils_parse_expression A vf a = Some (va, None)"
    and b: "gst_validate_utils_parse_expression A vf b = Some (vb, None)"
  shows "gst_validate_utils_parse_expression A vf (''('' @ a @ ''>'' @ b @ '')'')
         = Some (bool_val A (d_lt A vb va), None)"
proof -
  from valid2 [OF a b] obtain n where
    n: "\<forall>k c t. n \<le> k \<longrightarrow> \<not> bad K_EXPR c \<longrightarrow> side (filter (\<lambda>c. c \<noteq> CHR '' '') a) c \<longrightarrow>
       reader k A vf READ_EXPR (filter (\<lambda>c. c \<noteq> CHR '' '') a @ c # t) = Some (Inr (va, c # t))"
    "\<forall>k c t. n \<le> k \<longrightarrow> \<not> bad K_EXPR c \<longrightarrow> side (filter (\<lambda>c. c \<noteq> CHR '' '') b) c \<longrightarrow>
       reader k A vf READ_EXPR (filter (\<lambda>c. c \<noteq> CHR '' '') b @ c # t) = Some (Inr (vb, c # t))"
    by blast
  from valid_start [OF b] obtain c0 t0 where b0: "filter (\<lambda>c. c \<noteq> CHR '' '') b = c0 # t0" "c0 \<noteq> CHR ''=''"
    by blast
  have "reader (n) A vf READ_EXPR (filter (\<lambda>c. c \<noteq> CHR '' '') a @ CHR ''>'' # filter (\<lambda>c. c \<noteq> CHR '' '') b @ [CHR '')'', NUL])
          = Some (Inr (va, CHR ''>'' # filter (\<lambda>c. c \<noteq> CHR '' '') b @ [CHR '')'', NUL]))"
    "reader (Suc (n)) A vf READ_EXPR (filter (\<lambda>c. c \<noteq> CHR '' '') a @ CHR ''>'' # filter (\<lambda>c. c \<noteq> CHR '' '') b @ [CHR '')'', NUL])
          = Some (Inr (va, CHR ''>'' # filter (\<lambda>c. c \<noteq> CHR '' '') b @ [CHR '')'', NUL]))"
    "reader (Suc (Suc (n))) A vf READ_EXPR (filter (\<lambda>c. c \<noteq> CHR '' '') a @ CHR ''>'' # filter (\<lambda>c. c \<noteq> CHR '' '') b @ [CHR '')'', NUL])
          = Some (Inr (va, CHR ''>'' # filter (\<lambda>c. c \<noteq> CHR '' '') b @ [CHR '')'', NUL]))"
    "reader (n) A vf READ_EXPR (filter (\<lambda>c. c \<noteq> CHR '' '') b @ [CHR '')'', NUL]) = Some (Inr (vb, [CHR '')'', NUL]))"
    "reader (Suc (n)) A vf READ_EXPR (filter (\<lambda>c. c \<noteq> CHR '' '') b @ [CHR '')'', NUL]) = Some (Inr (vb, [CHR '')'', NUL]))"
    "reader (Suc (Suc (n))) A vf READ_EXPR (filter (\<lambda>c. c \<noteq> CHR '' '') b @ [CHR '')'', NUL]) = Some (Inr (vb, [CHR '')'', NUL]))"
    by (simp_all add: n del: reader.simps)
  then show ?thesis unfolding b0
    by (intro valI [where n = "Suc (Suc (Suc (Suc (Suc (Suc (Suc (Suc (Suc (Suc (Suc (n)))))))))))"]) (simp add: paren_simps b0 del: reader.simps)
qed

lemma paren_ge:
  assumes a: "gst_validate_utils_parse_expression A vf a = Some (va, None)"
    and b: "gst_validate_utils_parse_expression A vf b = Some (vb, None)"
  shows "gst_validate_utils_parse_expression A vf (''('' @ a @ ''>='' @ b @ '')'')
         = Some (bool_val A (d_le A vb va), None)"
proof -
  from valid2 [OF a b] obtain n where
    n: "\<forall>k c t. n \<le> k \<longrightarrow> \<not> bad K_EXPR c \<longrightarrow> side (filter (\<lambda>c. c \<noteq> CHR '' '') a) c \<longrightarrow>
       reader k A vf READ_EXPR (filter (\<lambda>c. c \<noteq> CHR '' '') a @ c # t) = Some (Inr (va, c # t))"
    "\<forall>k c t. n \<le> k \<longrightarrow> \<not> bad K_EXPR c \<longrightarrow> side (filter (\<lambda>c. c \<noteq> CHR '' '') b) c \<longrightarrow>
       reader k A vf READ_EXPR (filter (\<lambda>c. c \<noteq> CHR '' '') b @ c # t) = Some (Inr (vb, c # t))"
    by blast
  from valid_start [OF b] obtain c0 t0 where b0: "filter (\<lambda>c. c \<noteq> CHR '' '') b = c0 # t0" "c0 \<noteq> CHR ''=''"
    by blast
  have "reader (n) A vf READ_EXPR (filter (\<lambda>c. c \<noteq> CHR '' '') a @ CHR ''>'' # CHR ''='' # filter (\<lambda>c. c \<noteq> CHR '' '') b @ [CHR '')'', NUL])
          = Some (Inr (va, CHR ''>'' # CHR ''='' # filter (\<lambda>c. c \<noteq> CHR '' '') b @ [CHR '')'', NUL]))"
    "reader (Suc (n)) A vf READ_EXPR (filter (\<lambda>c. c \<noteq> CHR '' '') a @ CHR ''>'' # CHR ''='' # filter (\<lambda>c. c \<noteq> CHR '' '') b @ [CHR '')'', NUL])
          = Some (Inr (va, CHR ''>'' # CHR ''='' # filter (\<lambda>c. c \<noteq> CHR '' '') b @ [CHR '')'', NUL]))"
    "reader (Suc (Suc (n))) A vf READ_EXPR (filter (\<lambda>c. c \<noteq> CHR '' '') a @ CHR ''>'' # CHR ''='' # filter (\<lambda>c. c \<noteq> CHR '' '') b @ [CHR '')'', NUL])
          = Some (Inr (va, CHR ''>'' # CHR ''='' # filter (\<lambda>c. c \<noteq> CHR '' '') b @ [CHR '')'', NUL]))"
    "reader (n) A vf READ_EXPR (filter (\<lambda>c. c \<noteq> CHR '' '') b @ [CHR '')'', NUL]) = Some (Inr (vb, [CHR '')'', NUL]))"
    "reader (Suc (n)) A vf READ_EXPR (filter (\<lambda>c. c \<noteq> CHR '' '') b @ [CHR '')'', NUL]) = Some (Inr (vb, [CHR '')'', NUL]))"
    "reader (Suc (Suc (n))) A vf READ_EXPR (filter (\<lambda>c. c \<noteq> CHR '' '') b @ [CHR '')'', NUL]) = Some (Inr (vb, [CHR '')'', NUL]))"
    by (simp_all add: n del: reader.simps)
  then show ?thesis unfolding b0
    by (intro valI [where n = "Suc (Suc (Suc (Suc (Suc (Suc (Suc (Suc (Suc (Suc (Suc (n)))))))))))"]) (simp add: paren_simps b0 del: reader.simps)
qed

lemma paren_eq:
  assumes a: "gst_validate_utils_parse_expression A vf a = Some (va, None)"
    and b: "gst_validate_utils_parse_expression A vf b = Some (vb, None)"
    and e: "last (filter (\<lambda>c. c \<noteq> CHR '' '') a) \<noteq> CHR ''!''"
  shows "gst_validate_utils_parse_expression A vf (''('' @ a @ ''=='' @ b @ '')'')
         = Some (bool_val A (d_lt A (d_fabs A (d_sub A va vb)) (PARSER_BOOLEAN_EQUALITY_THRESHOLD A)), None)"
proof -
  from valid2 [OF a b] obtain n where
    n: "\<forall>k c t. n \<le> k \<longrightarrow> \<not> bad K_EXPR c \<longrightarrow> side (filter (\<lambda>c. c \<noteq> CHR '' '') a) c \<longrightarrow>
       reader k A vf READ_EXPR (filter (\<lambda>c. c \<noteq> CHR '' '') a @ c # t) = Some (Inr (va, c # t))"
    "\<forall>k c t. n \<le> k \<longrightarrow> \<not> bad K_EXPR c \<longrightarrow> side (filter (\<lambda>c. c \<noteq> CHR '' '') b) c \<longrightarrow>
       reader k A vf READ_EXPR (filter (\<lambda>c. c \<noteq> CHR '' '') b @ c # t) = Some (Inr (vb, c # t))"
    by blast
  from valid_start [OF b] obtain c0 t0 where b0: "filter (\<lambda>c. c \<noteq> CHR '' '') b = c0 # t0" "c0 \<noteq> CHR ''=''"
    by blast
  have "reader (n) A vf READ_EXPR (filter (\<lambda>c. c \<noteq> CHR '' '') a @ CHR ''='' # CHR ''='' # filter (\<lambda>c. c \<noteq> CHR '' '') b @ [CHR '')'', NUL])
          = Some (Inr (va, CHR ''='' # CHR ''='' # filter (\<lambda>c. c \<noteq> CHR '' '') b @ [CHR '')'', NUL]))"
    "reader (Suc (n)) A vf READ_EXPR (filter (\<lambda>c. c \<noteq> CHR '' '') a @ CHR ''='' # CHR ''='' # filter (\<lambda>c. c \<noteq> CHR '' '') b @ [CHR '')'', NUL])
          = Some (Inr (va, CHR ''='' # CHR ''='' # filter (\<lambda>c. c \<noteq> CHR '' '') b @ [CHR '')'', NUL]))"
    "reader (Suc (Suc (n))) A vf READ_EXPR (filter (\<lambda>c. c \<noteq> CHR '' '') a @ CHR ''='' # CHR ''='' # filter (\<lambda>c. c \<noteq> CHR '' '') b @ [CHR '')'', NUL])
          = Some (Inr (va, CHR ''='' # CHR ''='' # filter (\<lambda>c. c \<noteq> CHR '' '') b @ [CHR '')'', NUL]))"
    "reader (n) A vf READ_EXPR (filter (\<lambda>c. c \<noteq> CHR '' '') b @ [CHR '')'', NUL]) = Some (Inr (vb, [CHR '')'', NUL]))"
    "reader (Suc (n)) A vf READ_EXPR (filter (\<lambda>c. c \<noteq> CHR '' '') b @ [CHR '')'', NUL]) = Some (Inr (vb, [CHR '')'', NUL]))"
    "reader (Suc (Suc (n))) A vf READ_EXPR (filter (\<lambda>c. c \<noteq> CHR '' '') b @ [CHR '')'', NUL]) = Some (Inr (vb, [CHR '')'', NUL]))"
    by (simp_all add: n side_def e del: reader.simps)
  then show ?thesis unfolding b0
    by (intro valI [where n = "Suc (Suc (Suc (Suc (Suc (Suc (Suc (Suc (Suc (Suc (Suc (n)))))))))))"]) (simp add: paren_simps b0 del: reader.simps)
qed

lemma paren_ne:
  assumes a: "gst_validate_utils_parse_expression A vf a = Some (va, None)"
    and b: "gst_validate_utils_parse_expression A vf b = Some (vb, None)"
  shows "gst_validate_utils_parse_expression A vf (''('' @ a @ ''!='' @ b @ '')'')
         = Some (bool_val A (d_lt A (PARSER_BOOLEAN_EQUALITY_THRESHOLD A) (d_fabs A (d_sub A va vb))), None)"
proof -
  from valid2 [OF a b] obtain n where
    n: "\<forall>k c t. n \<le> k \<longrightarrow> \<not> bad K_EXPR c \<longrightarrow> side (filter (\<lambda>c. c \<noteq> CHR '' '') a) c \<longrightarrow>
       reader k A vf READ_EXPR (filter (\<lambda>c. c \<noteq> CHR '' '') a @ c # t) = Some (Inr (va, c # t))"
    "\<forall>k c t. n \<le> k \<longrightarrow> \<not> bad K_EXPR c \<longrightarrow> side (filter (\<lambda>c. c \<noteq> CHR '' '') b) c \<longrightarrow>
       reader k A vf READ_EXPR (filter (\<lambda>c. c \<noteq> CHR '' '') b @ c # t) = Some (Inr (vb, c # t))"
    by blast
  from valid_start [OF b] obtain c0 t0 where b0: "filter (\<lambda>c. c \<noteq> CHR '' '') b = c0 # t0" "c0 \<noteq> CHR ''=''"
    by blast
  have "reader (n) A vf READ_EXPR (filter (\<lambda>c. c \<noteq> CHR '' '') a @ CHR ''!'' # CHR ''='' # filter (\<lambda>c. c \<noteq> CHR '' '') b @ [CHR '')'', NUL])
          = Some (Inr (va, CHR ''!'' # CHR ''='' # filter (\<lambda>c. c \<noteq> CHR '' '') b @ [CHR '')'', NUL]))"
    "reader (Suc (n)) A vf READ_EXPR (filter (\<lambda>c. c \<noteq> CHR '' '') a @ CHR ''!'' # CHR ''='' # filter (\<lambda>c. c \<noteq> CHR '' '') b @ [CHR '')'', NUL])
          = Some (Inr (va, CHR ''!'' # CHR ''='' # filter (\<lambda>c. c \<noteq> CHR '' '') b @ [CHR '')'', NUL]))"
    "reader (Suc (Suc (n))) A vf READ_EXPR (filter (\<lambda>c. c \<noteq> CHR '' '') a @ CHR ''!'' # CHR ''='' # filter (\<lambda>c. c \<noteq> CHR '' '') b @ [CHR '')'', NUL])
          = Some (Inr (va, CHR ''!'' # CHR ''='' # filter (\<lambda>c. c \<noteq> CHR '' '') b @ [CHR '')'', NUL]))"
    "reader (n) A vf READ_EXPR (filter (\<lambda>c. c \<noteq> CHR '' '') b @ [CHR '')'', NUL]) = Some (Inr (vb, [CHR '')'', NUL]))"
    "reader (Suc (n)) A vf READ_EXPR (filter (\<lambda>c. c \<noteq> CHR '' '') b @ [CHR '')'', NUL]) = Some (Inr (vb, [CHR '')'', NUL]))"
    "reader (Suc (Suc (n))) A vf READ_EXPR (filter (\<lambda>c. c \<noteq> CHR '' '') b @ [CHR '')'', NUL]) = Some (Inr (vb, [CHR '')'', NUL]))"
    by (simp_all add: n del: reader.simps)
  then show ?thesis unfolding b0
    by (intro valI [where n = "Suc (Suc (Suc (Suc (Suc (Suc (Suc (Suc (Suc (Suc (Suc (n)))))))))))"]) (simp add: paren_simps b0 del: reader.simps)
qed

lemma paren_and:
  assumes a: "gst_validate_utils_parse_expression A vf a = Some (va, None)"
    and b: "gst_validate_utils_parse_expression A vf b = Some (vb, None)"
  shows "gst_validate_utils_parse_expression A vf (''('' @ a @ ''&&'' @ b @ '')'')
         = Some (bool_val A (d_le A (PARSER_BOOLEAN_EQUALITY_THRESHOLD A) (d_fabs A va) \<and> d_le A (PARSER_BOOLEAN_EQUALITY_THRESHOLD A) (d_fabs A vb)), None)"
proof -
  from valid2 [OF a b] obtain n where
    n: "\<forall>k c t. n \<le> k \<longrightarrow> \<not> bad K_EXPR c \<longrightarrow> side (filter (\<lambda>c. c \<noteq> CHR '' '') a) c \<longrightarrow>
       reader k A vf READ_EXPR (filter (\<lambda>c. c \<noteq> CHR '' '') a @ c # t) = Some (Inr (va, c # t))"
    "\<forall>k c t. n \<le> k \<longrightarrow> \<not> bad K_EXPR c \<longrightarrow> side (filter (\<lambda>c. c \<noteq> CHR '' '') b) c \<longrightarrow>
       reader k A vf READ_EXPR (filter (\<lambda>c. c \<noteq> CHR '' '') b @ c # t) = Some (Inr (vb, c # t))"
    by blast
  from valid_start [OF b] obtain c0 t0 where b0: "filter (\<lambda>c. c \<noteq> CHR '' '') b = c0 # t0" "c0 \<noteq> CHR ''=''"
    by blast
  have "reader (n) A vf READ_EXPR (filter (\<lambda>c. c \<noteq> CHR '' '') a @ CHR ''&'' # CHR ''&'' # filter (\<lambda>c. c \<noteq> CHR '' '') b @ [CHR '')'', NUL])
          = Some (Inr (va, CHR ''&'' # CHR ''&'' # filter (\<lambda>c. c \<noteq> CHR '' '') b @ [CHR '')'', NUL]))"
    "reader (Suc (n)) A vf READ_EXPR (filter (\<lambda>c. c \<noteq> CHR '' '') a @ CHR ''&'' # CHR ''&'' # filter (\<lambda>c. c \<noteq> CHR '' '') b @ [CHR '')'', NUL])
          = Some (Inr (va, CHR ''&'' # CHR ''&'' # filter (\<lambda>c. c \<noteq> CHR '' '') b @ [CHR '')'', NUL]))"
    "reader (Suc (Suc (n))) A vf READ_EXPR (filter (\<lambda>c. c \<noteq> CHR '' '') a @ CHR ''&'' # CHR ''&'' # filter (\<lambda>c. c \<noteq> CHR '' '') b @ [CHR '')'', NUL])
          = Some (Inr (va, CHR ''&'' # CHR ''&'' # filter (\<lambda>c. c \<noteq> CHR '' '') b @ [CHR '')'', NUL]))"
    "reader (n) A vf READ_EXPR (filter (\<lambda>c. c \<noteq> CHR '' '') b @ [CHR '')'', NUL]) = Some (Inr (vb, [CHR '')'', NUL]))"
    "reader (Suc (n)) A vf READ_EXPR (filter (\<lambda>c. c \<noteq> CHR '' '') b @ [CHR '')'', NUL]) = Some (Inr (vb, [CHR '')'', NUL]))"
    "reader (Suc (Suc (n))) A vf READ_EXPR (filter (\<lambda>c. c \<noteq> CHR '' '') b @ [CHR '')'', NUL]) = Some (Inr (vb, [CHR '')'', NUL]))"
    by (simp_all add: n del: reader.simps)
  then show ?thesis unfolding b0
    by (intro valI [where n = "Suc (Suc (Suc (Suc (Suc (Suc (Suc (Suc (Suc (Suc (Suc (n)))))))))))"]) (simp add: paren_simps b0 del: reader.simps)
qed

lemma paren_or:
  assumes a: "gst_validate_utils_parse_expression A vf a = Some (va, None)"
    and b: "gst_validate_utils_parse_expression A vf b = Some (vb, None)"
  shows "gst_validate_utils_parse_expression A vf (''('' @ a @ ''||'' @ b @ '')'')
         = Some (bool_val A (d_le A (PARSER_BOOLEAN_EQUALITY_THRESHOLD A) (d_fabs A va) \<or> d_le A (PARSER_BOOLEAN_EQUALITY_THRESHOLD A) (d_fabs A vb)), None)"
proof -
  from valid2 [OF a b] obtain n where
    n: "\<forall>k c t. n \<le> k \<longrightarrow> \<not> bad K_EXPR c \<longrightarrow> side (filter (\<lambda>c. c \<noteq> CHR '' '') a) c \<longrightarrow>
       reader k A vf READ_EXPR (filter (\<lambda>c. c \<noteq> CHR '' '') a @ c # t) = Some (Inr (va, c # t))"
    "\<forall>k c t. n \<le> k \<longrightarrow> \<not> bad K_EXPR c \<longrightarrow> side (filter (\<lambda>c. c \<noteq> CHR '' '') b) c \<longrightarrow>
       reader k A vf READ_EXPR (filter (\<lambda>c. c \<noteq> CHR '' '') b @ c # t) = Some (Inr (vb, c # t))"
    by blast
  from valid_start [OF b] obtain c0 t0 where b0: "filter (\<lambda>c. c \<noteq> CHR '' '') b = c0 # t0" "c0 \<noteq> CHR ''=''"
    by blast
  have "reader (n) A vf READ_EXPR (filter (\<lambda>c. c \<noteq> CHR '' '') a @ CHR ''|'' # CHR ''|'' # filter (\<lambda>c. c \<noteq> CHR '' '') b @ [CHR '')'', NUL])
          = Some (Inr (va, CHR ''|'' # CHR ''|'' # filter (\<lambda>c. c \<noteq> CHR '' '') b @ [CHR '')'', NUL]))"
    "reader (Suc (n)) A vf READ_EXPR (filter (\<lambda>c. c \<noteq> CHR '' '') a @ CHR ''|'' # CHR ''|'' # filter (\<lambda>c. c \<noteq> CHR '' '') b @ [CHR '')'', NUL])
          = Some (Inr (va, CHR ''|'' # CHR ''|'' # filter (\<lambda>c. c \<noteq> CHR '' '') b @ [CHR '')'', NUL]))"
    "reader (Suc (Suc (n))) A vf READ_EXPR (filter (\<lambda>c. c \<noteq> CHR '' '') a @ CHR ''|'' # CHR ''|'' # filter (\<lambda>c. c \<noteq> CHR '' '') b @ [CHR '')'', NUL])
          = Some (Inr (va, CHR ''|'' # CHR ''|'' # filter (\<lambda>c. c \<noteq> CHR '' '') b @ [CHR '')'', NUL]))"
    "reader (n) A vf READ_EXPR (filter (\<lambda>c. c \<noteq> CHR '' '') b @ [CHR '')'', NUL]) = Some (Inr (vb, [CHR '')'', NUL]))"
    "reader (Suc (n)) A vf READ_EXPR (filter (\<lambda>c. c \<noteq> CHR '' '') b @ [CHR '')'', NUL]) = Some (Inr (vb, [CHR '')'', NUL]))"
    "reader (Suc (Suc (n))) A vf READ_EXPR (filter (\<lambda>c. c \<noteq> CHR '' '') b @ [CHR '')'', NUL]) = Some (Inr (vb, [CHR '')'', NUL]))"
    by (simp_all add: n del: reader.simps)
  then show ?thesis unfolding b0
    by (intro valI [where n = "Suc (Suc (Suc (Suc (Suc (Suc (Suc (Suc (Suc (Suc (Suc (n)))))))))))"]) (simp add: paren_simps b0 del: reader.simps)
qed

lemmas eval_simps = reader_numeral level_defs lex_defs real_defs

lemma real_ops_sel:
  "of_int64 real_ops = of_int" "d_add real_ops = (+)" "d_sub real_ops = (-)"
  "d_mul real_ops = (*)" "d_div real_ops = (/)" "d_neg real_ops = uminus"
  "d_fabs real_ops = abs" "d_lt real_ops = (<)" "d_le real_ops = (\<le>)" "d_eq real_ops = (=)"
  "PARSER_BOOLEAN_EQUALITY_THRESHOLD real_ops = 1 / 10 ^ 10"
  by (simp_all add: real_ops_def)

lemma MIN_macro_real [simp]: "MIN_macro real_ops a b = min a b"
  by (simp add: MIN_macro_def real_ops_def min_def)

lemma MAX_macro_real [simp]: "MAX_macro real_ops a b = max a b"
  by (simp add: MAX_macro_def real_ops_def max_def)

lemma eval_1: "gst_validate_utils_parse_expression real_ops no_vars ''1'' = Some (1, None)"
  by (rule valI [where n = 14]) (simp add: eval_simps)

lemma eval_2: "gst_validate_utils_parse_expression real_ops no_vars ''2'' = Some (2, None)"
  by (rule valI [where n = 14]) (simp add: eval_simps)

lemma eval_3: "gst_validate_utils_parse_expression real_ops no_vars ''3'' = Some (3, None)"
  by (rule valI [where n = 14]) (simp add: eval_simps)

lemma eval_2_times_4: "gst_validate_utils_parse_expression real_ops no_vars ''2*4'' = Some (8, None)"
  by (rule valI [where n = 14]) (simp add: eval_simps)

lemma eval_neg_2_pow_2:
  "gst_validate_utils_parse_expression real_ops no_vars ''-2^2'' = Some (- 4, None)"
  by (rule valI [where n = 14]) (simp add: eval_simps)

text \<open>
  Claim C7. For expressions \<open>a\<close> and \<open>b\<close> that the evaluator accepts, with values \<open>va\<close>
  and \<open>vb\<close> under the same variable lookup: \<open>min(a,b)\<close> evaluates to \<open>MIN (va, vb)\<close> and
  \<open>max(a,b)\<close> to \<open>MAX (va, vb)\<close>, and \<open>a+(b)\<close>, with the right operand in parentheses,
  to \<open>va + vb\<close> when \<open>a\<close> does not end in the letter of an exponent. This holds for
  every arithmetic of doubles.
\<close>

theorem eval_min_max_plus:
  assumes "gst_validate_utils_parse_expression A vf a = Some (va, None)"
    and "gst_validate_utils_parse_expression A vf b = Some (vb, None)"
  shows "gst_validate_utils_parse_expression A vf (''min('' @ a @ '','' @ b @ '')'')
           = Some (MIN_macro A va vb, None) \<and>
         gst_validate_utils_parse_expression A vf (''max('' @ a @ '','' @ b @ '')'')
           = Some (MAX_macro A va vb, None) \<and>
         (last (filter (\<lambda>c. c \<noteq> CHR '' '') a) \<noteq> CHR ''e'' \<and>
          last (filter (\<lambda>c. c \<noteq> CHR '' '') a) \<noteq> CHR ''E'' \<longrightarrow>
          gst_validate_utils_parse_expression A vf (a @ ''+('' @ b @ '')'')
            = Some (d_add A va vb, None))"
  using min_hom [OF assms] max_hom [OF assms] plus_hom [OF assms] by blast

theorem eval_min_max_plus_witness:
  "gst_validate_utils_parse_expression real_ops no_vars ''min(3,2*4)'' = Some (3, None) \<and>
   gst_validate_utils_parse_expression real_ops no_vars ''max(3,2*4)'' = Some (8, None) \<and>
   gst_validate_utils_parse_expression real_ops no_vars ''3+(2*4)'' = Some (11, None)"
  using eval_min_max_plus [OF eval_3 eval_2_times_4]
  by (simp add: real_ops_sel)

text \<open>
  The sum of C7 without the parentheses fails: \<open>1\<close> evaluates to \<open>1\<close> and \<open>-2^2\<close> to
  \<open>-4\<close>, but \<open>1+-2^2\<close> evaluates to \<open>5\<close>. The sign in front of an expression negates
  its first term; a sign further right belongs to the base of the power.
\<close>

theorem eval_plus_counterexample:
  "gst_validate_utils_parse_expression real_ops no_vars ''1'' = Some (1, None) \<and>
   gst_validate_utils_parse_expression real_ops no_vars ''-2^2'' = Some (- 4, None) \<and>
   gst_validate_utils_parse_expression real_ops no_vars (''1'' @ ''+'' @ ''-2^2'') = Some (5, None) \<and>
   d_add real_ops 1 (- 4) = - 3"
proof -
  have "gst_validate_utils_parse_expression real_ops no_vars (''1'' @ ''+'' @ ''-2^2'') = Some (5, None)"
    by (rule valI [where n = 14]) (simp add: eval_simps)
  with eval_1 eval_neg_2_pow_2 show ?thesis by (simp add: real_ops_sel)
qed

text \<open>
  Claim C1. \<open>_parse\<close> starts at \<open>_read_expr\<close>, the additive level; the levels of the
  comparisons, of \<open>==\<close> and \<open>!=\<close>, of \<open>&&\<close> and of \<open>||\<close> are entered from
  \<open>_read_parenthesis\<close> only. So these operators are accepted between parentheses: for
  expressions \<open>a\<close> and \<open>b\<close> that the evaluator accepts, with values \<open>va\<close> and \<open>vb\<close>, each
  of the eight forms \<open>(a op b)\<close> is read to its end and has the value of the operator
  (\<open>1.0\<close> or \<open>0.0\<close>).
\<close>

theorem parenthesised_boolean_accepted:
  assumes "gst_validate_utils_parse_expression A vf a = Some (va, None)"
    and "gst_validate_utils_parse_expression A vf b = Some (vb, None)"
  shows "gst_validate_utils_parse_expression A vf (''('' @ a @ ''<'' @ b @ '')'')
           = Some (bool_val A (d_lt A va vb), None) \<and>
         gst_validate_utils_parse_expression A vf (''('' @ a @ ''<='' @ b @ '')'')
           = Some (bool_val A (d_le A va vb), None) \<and>
         gst_validate_utils_parse_expression A vf (''('' @ a @ ''>'' @ b @ '')'')
           = Some (bool_val A (d_lt A vb va), None) \<and>
         gst_validate_utils_parse_expression A vf (''('' @ a @ ''>='' @ b @ '')'')
           = Some (bool_val A (d_le A vb va), None) \<and>
         (last (filter (\<lambda>c. c \<noteq> CHR '' '') a) \<noteq> CHR ''!'' \<longrightarrow>
          gst_validate_utils_parse_expression A vf (''('' @ a @ ''=='' @ b @ '')'')
            = Some (bool_val A (d_lt A (d_fabs A (d_sub A va vb))
                (PARSER_BOOLEAN_EQUALITY_THRESHOLD A)), None)) \<and>
         gst_validate_utils_parse_expression A vf (''('' @ a @ ''!='' @ b @ '')'')
           = Some (bool_val A (d_lt A (PARSER_BOOLEAN_EQUALITY_THRESHOLD A)
               (d_fabs A (d_sub A va vb))), None) \<and>
         gst_validate_utils_parse_expression A vf (''('' @ a @ ''&&'' @ b @ '')'')
           = Some (bool_val A (d_le A (PARSER_BOOLEAN_EQUALITY_THRESHOLD A) (d_fabs A va) \<and>
                               d_le A (PARSER_BOOLEAN_EQUALITY_THRESHOLD A) (d_fabs A vb)), None) \<and>
         gst_validate_utils_parse_expression A vf (''('' @ a @ ''||'' @ b @ '')'')
           = Some (bool_val A (d_le A (PARSER_BOOLEAN_EQUALITY_THRESHOLD A) (d_fabs A va) \<or>
                               d_le A (PARSER_BOOLEAN_EQUALITY_THRESHOLD A) (d_fabs A vb)), None)"
  using paren_lt [OF assms] paren_le [OF assms] paren_gt [OF assms] paren_ge [OF assms]
    paren_eq [OF assms] paren_ne [OF assms] paren_and [OF assms] paren_or [OF assms]
  by blast

theorem parenthesised_boolean_accepted_witness:
  "gst_validate_utils_parse_expression real_ops no_vars ''(1<2)'' = Some (1, None) \<and>
   gst_validate_utils_parse_expression real_ops no_vars ''(1<=2)'' = Some (1, None) \<and>
   gst_validate_utils_parse_expression real_ops no_vars ''(1>2)'' = Some (0, None) \<and>
   gst_validate_utils_parse_expression real_ops no_vars ''(1>=2)'' = Some (0, None) \<and>
   gst_validate_utils_parse_expression real_ops no_vars ''(1==2)'' = Some (0, None) \<and>
   gst_validate_utils_parse_expression real_ops no_vars ''(1!=2)'' = Some (1, None) \<and>
   gst_validate_utils_parse_expression real_ops no_vars ''(1&&2)'' = Some (1, None) \<and>
   gst_validate_utils_parse_expression real_ops no_vars ''(1||2)'' = Some (1, None)"
  using parenthesised_boolean_accepted [OF eval_1 eval_2]
  by (simp add: real_ops_sel bool_val_def)

text \<open>
  Without the parentheses the operators of C1 are not accepted: on \<open>1<2\<close> and on
  \<open>1&&1\<close> the evaluator stops after \<open>1\<close>, reports that it failed to reach the end of
  the input and returns \<open>-1.0\<close>. The unary sign binds tighter than the power:
  \<open>3*-2^2\<close> is \<open>3 * (-2)^2\<close>.
\<close>

theorem top_level_boolean_rejected:
  "gst_validate_utils_parse_expression real_ops no_vars ''1<2''
     = Some (- 1, Some Failed_to_reach_end) \<and>
   gst_validate_utils_parse_expression real_ops no_vars ''1&&1''
     = Some (- 1, Some Failed_to_reach_end) \<and>
   gst_validate_utils_parse_expression real_ops no_vars ''3*-2^2'' = Some (12, None)"
proof -
  have "reader 14 real_ops no_vars READ_EXPR (filter (\<lambda>c. c \<noteq> CHR '' '') ''1<2'' @ [NUL])
        = Some (Inr (1, ''<2'' @ [NUL]))"
    by (simp add: eval_simps)
  from restI [OF this]
  have 1: "gst_validate_utils_parse_expression real_ops no_vars ''1<2''
     = Some (- 1, Some Failed_to_reach_end)" by (simp add: real_ops_sel)
  have "reader 14 real_ops no_vars READ_EXPR (filter (\<lambda>c. c \<noteq> CHR '' '') ''1&&1'' @ [NUL])
        = Some (Inr (1, ''&&1'' @ [NUL]))"
    by (simp add: eval_simps)
  from restI [OF this]
  have 2: "gst_validate_utils_parse_expression real_ops no_vars ''1&&1''
     = Some (- 1, Some Failed_to_reach_end)" by (simp add: real_ops_sel)
  have 3: "gst_validate_utils_parse_expression real_ops no_vars ''3*-2^2'' = Some (12, None)"
    by (rule valI [where n = 14]) (simp add: eval_simps)
  from 1 2 3 show ?thesis by simp
qed

section \<open>Properties of the dispatcher\<close>



section \<open>Properties of the execution gate\<close>






section \<open>Properties of the loader\<close>

lemma load_scenarios_True: "load_scenarios env dirs found ss = Inr b \<Longrightarrow> b"
  by (induction ss arbitrary: found) (auto split: option.splits if_splits)

lemma load_scenarios_iff:
  "load_scenarios env dirs found ss = Inr True \<longleftrightarrow>
     (\<forall>s \<in> set ss. find_scenario env dirs s \<noteq> None) \<and>
     length (filter (\<lambda>s. find_scenario env dirs s = Some False) ss) + (if found then 1 else 0) \<le> 1"
  by (induction ss arbitrary: found) (auto split: option.splits)

lemma load_scenarios_second:
  assumes "\<forall>s \<in> set ss. find_scenario env dirs s \<noteq> None"
    and "1 < length (filter (\<lambda>s. find_scenario env dirs s = Some False) ss) + (if found then 1 else 0)"
  shows "load_scenarios env dirs found ss = Inl At_most_one_action_scenario"
  using assms by (induction ss arbitrary: found) (auto split: option.splits if_splits)

text \<open>
  Claim C6. \<open>gst_validate_scenario_load\<close> on a list of names separated by colons
  returns (and then it returns \<open>TRUE\<close>) exactly when a file is found and loaded for
  every name and at most one of the loaded scenarios is not a config scenario. When all
  are found and two or more are not config scenarios, it fails with the error that at
  most one action scenario can be set; any number of config scenarios load together.
\<close>

theorem load_at_most_one_action_scenario:
  "(gst_validate_scenario_load env (Some n) rel = Inr True \<longleftrightarrow>
      (\<forall>s \<in> set (g_strsplit n (CHR '':'')).
         find_scenario env (env_scenariodir env rel) s \<noteq> None) \<and>
      length (filter (\<lambda>s. find_scenario env (env_scenariodir env rel) s = Some False)
                (g_strsplit n (CHR '':''))) \<le> 1) \<and>
   ((\<forall>s \<in> set (g_strsplit n (CHR '':'')).
         find_scenario env (env_scenariodir env rel) s \<noteq> None) \<and>
    1 < length (filter (\<lambda>s. find_scenario env (env_scenariodir env rel) s = Some False)
                (g_strsplit n (CHR '':''))) \<longrightarrow>
    gst_validate_scenario_load env (Some n) rel = Inl At_most_one_action_scenario) \<and>
   ((\<forall>s \<in> set (g_strsplit n (CHR '':'')).
         find_scenario env (env_scenariodir env rel) s = Some True) \<longrightarrow>
    gst_validate_scenario_load env (Some n) rel = Inr True) \<and>
   (\<forall>b. gst_validate_scenario_load env (Some n) rel = Inr b \<longrightarrow> b)"
proof -
  let ?ss = "g_strsplit n (CHR '':'')" and ?d = "env_scenariodir env rel"
  have e: "gst_validate_scenario_load env (Some n) rel = load_scenarios env ?d False ?ss"
    by (simp add: gst_validate_scenario_load_def)
  have 1: "load_scenarios env ?d False ?ss = Inr True \<longleftrightarrow>
      (\<forall>s \<in> set ?ss. find_scenario env ?d s \<noteq> None) \<and>
      length (filter (\<lambda>s. find_scenario env ?d s = Some False) ?ss) \<le> 1"
    using load_scenarios_iff [of env ?d False ?ss] by simp
  have 2: "(\<forall>s \<in> set ?ss. find_scenario env ?d s \<noteq> None) \<and>
      1 < length (filter (\<lambda>s. find_scenario env ?d s = Some False) ?ss) \<longrightarrow>
      load_scenarios env ?d False ?ss = Inl At_most_one_action_scenario"
    using load_scenarios_second [of ?ss env ?d False] by simp
  have 3: "(\<forall>s \<in> set ?ss. find_scenario env ?d s = Some True) \<longrightarrow>
      load_scenarios env ?d False ?ss = Inr True"
  proof
    assume a: "\<forall>s \<in> set ?ss. find_scenario env ?d s = Some True"
    then have "filter (\<lambda>s. find_scenario env ?d s = Some False) ?ss = []"
      by (auto simp: filter_empty_conv)
    with a 1 show "load_scenarios env ?d False ?ss = Inr True" by auto
  qed
  have 4: "\<forall>b. load_scenarios env ?d False ?ss = Inr b \<longrightarrow> b"
    by (auto dest: load_scenarios_True)
  from 1 2 3 4 show ?thesis unfolding e by blast
qed

lemma example_find_scenario:
  "find_scenario example_loader None ''a.scenario'' = Some False"
  "find_scenario example_loader None ''b.scenario'' = Some False"
  "find_scenario example_loader None ''c.scenario'' = Some True"
  "find_scenario example_loader None ''d.scenario'' = None"
  by (simp_all add: find_scenario_def example_loader_def g_str_has_suffix_def)

lemma example_env_scenariodir: "env_scenariodir example_loader None = None"
  by (simp add: env_scenariodir_def example_loader_def)

theorem load_at_most_one_action_scenario_witness:
  "gst_validate_scenario_load example_loader (Some ''c.scenario:a.scenario:c.scenario'') None
     = Inr True \<and>
   gst_validate_scenario_load example_loader (Some ''a.scenario:c.scenario:b.scenario'') None
     = Inl At_most_one_action_scenario \<and>
   gst_validate_scenario_load example_loader (Some ''c.scenario:c.scenario'') None = Inr True \<and>
   gst_validate_scenario_load example_loader (Some ''a.scenario:d.scenario'') None \<noteq> Inr True"
  using load_at_most_one_action_scenario [of example_loader "''c.scenario:a.scenario:c.scenario''" None]
    load_at_most_one_action_scenario [of example_loader "''a.scenario:c.scenario:b.scenario''" None]
    load_at_most_one_action_scenario [of example_loader "''c.scenario:c.scenario''" None]
    load_at_most_one_action_scenario [of example_loader "''a.scenario:d.scenario''" None]
  by (auto simp: g_strsplit_def example_find_scenario example_env_scenariodir)

section \<open>Properties of the end of stream\<close>





lemma example_types_lookup:
  "find_action_type example_types ''seek'' = Some (ActionType ''seek'' ''core'' 0 {} ''seek'' None)"
  "find_action_type example_types ''stop'' =
     Some (ActionType ''stop'' ''core'' 0 {GST_VALIDATE_ACTION_TYPE_NO_EXECUTION_NOT_FATAL} ''stop'' None)"
  by (simp_all add: example_types_def)



section \<open>Properties of the replacement of variables\<close>

lemma not_isword [simp]:
  "\<not> isword (CHR ''$'')" "\<not> isword (CHR ''('')" "\<not> isword (CHR '')'')"
  by (simp_all add: isword_def isalpha_def isdigit_def)




lemma match_variable_no_dollar:
  "CHR ''$'' \<noteq> c \<Longrightarrow> match_variable (c # cs) = None"
  by (auto simp: match_variable_def split: list.splits)

lemma matched_variables_text:
  "CHR ''$'' \<notin> set t \<Longrightarrow> matched_variables (t @ rest) = matched_variables rest"
  by (induction t) (simp_all add: match_variable_no_dollar)





























section \<open>Properties of the times\<close>

text \<open>
  \<open>GST_ROUND_UP_4\<close> on the 64 bits of a \<open>GstClockTime\<close>: the result is a multiple of 4,
  the least one that is not below the argument unless the sum \<open>num + 3\<close> wraps around.
\<close>

lemma and_not_3: "(y :: 64 word) AND NOT 3 = 4 * (y div 4)"
proof -
  have "y AND 3 = y mod 4"
    using take_bit_eq_mask [of 2 y] take_bit_eq_mod [of 2 y] by (simp add: mask_eq_exp_minus_1)
  moreover have "y - (y AND 3) = y AND NOT (y AND 3)"
    by (rule disjunctive_diff) (simp add: bit_and_iff)
  moreover have "y AND NOT (y AND 3) = y AND NOT 3"
    by (simp add: bit.conj_disj_distrib)
  moreover have "y - y mod 4 = 4 * (y div 4)"
    using word_mod_div_equality [of y 4] by (simp add: algebra_simps)
  ultimately show ?thesis by simp
qed

lemma GST_ROUND_UP_4_unat:
  "unat (GST_ROUND_UP_4 x) = 4 * (((unat x + 3) mod 2 ^ 64) div 4)"
proof -
  have a: "unat (x + 3) = (unat x + 3) mod 2 ^ 64"
    by (simp add: unat_word_ariths)
  have b: "unat (4 * ((x + 3) div 4)) = 4 * (unat (x + 3) div 4)"
    by (simp add: unat_word_ariths unat_div) 
  have "GST_ROUND_UP_4 x = 4 * ((x + 3) div 4)"
    unfolding GST_ROUND_UP_4_def by (rule and_not_3)
  with a b show ?thesis by simp
qed

lemma GST_ROUND_UP_4_multiple: "GST_ROUND_UP_4 x AND 3 = 0"
  by (simp add: GST_ROUND_UP_4_def and.assoc)

lemma GST_ROUND_UP_4_up:
  assumes "unat x \<le> 2 ^ 64 - 4"
  shows "unat x \<le> unat (GST_ROUND_UP_4 x) \<and> unat (GST_ROUND_UP_4 x) < unat x + 4"
proof -
  from assms have "(unat x + 3) mod 2 ^ 64 = unat x + 3" by simp
  then have "unat (GST_ROUND_UP_4 x) = 4 * ((unat x + 3) div 4)"
    by (simp only: GST_ROUND_UP_4_unat)
  then show ?thesis by presburger
qed

lemma get_clocktime_string:
  assumes "structures scenario (addr action) fieldname = Some (G_TYPE_STRING tmpvalue)"
    and "replace_variables_in_string A scenario tmpvalue = (Inr strval, scenario')"
    and "gst_validate_utils_parse_expression A (set_variable_func scenario') strval = Some (val, error)"
  shows "gst_validate_action_get_clocktime A scenario action fieldname =
           Some (Inr (if error \<noteq> None then (0, GST_CLOCK_TIME_NONE, scenario')
                      else (let t = (if d_eq A val (of_int64 A (- 1)) then GST_CLOCK_TIME_NONE
                                     else GST_ROUND_UP_4
                                            (to_guint64 A (d_mul A val (of_int64 A GST_SECOND))))
                            in (1, t, scenario' \<lparr>structures := (structures scenario')
                                  (addr action := (structures scenario' (addr action))
                                     (fieldname \<mapsto> G_TYPE_UINT64 t))\<rparr>))))"
  using assms
  by (cases error)
     (simp_all add: gst_validate_action_get_clocktime_def gst_validate_utils_get_clocktime_def
       gst_structure_get_string_def Let_def)

lemma parse_expression_error:
  "\<exists>v e. gst_validate_utils_parse_expression A vf expr = Some (v, e) \<and>
         (e \<noteq> None \<longrightarrow> v = of_int64 A (- 1))"
  using parse_expression_returns [of A vf expr]
  by (auto simp: gst_validate_utils_parse_expression_def Let_def split: option.splits sum.splits)

text \<open>
  Claim C10. The evaluator returns on every input, and with an error it returns \<open>-1\<close>.
  For a field of the action that holds a string, \<open>gst_validate_action_get_clocktime\<close>
  replaces the variables and evaluates the result: with an error it returns \<open>FALSE\<close>;
  with a value equal to \<open>-1\<close> it returns \<open>TRUE\<close> and the time \<open>GST_CLOCK_TIME_NONE\<close>;
  with any other value it returns \<open>TRUE\<close> and the value times \<open>GST_SECOND\<close>, converted
  to 64 bits and passed through \<open>GST_ROUND_UP_4\<close>, and it stores the time in the field.
  A field that holds a double is treated as the value of an expression, and without the
  field the function returns \<open>-1\<close>.
  \<open>GST_ROUND_UP_4\<close> gives a multiple of 4, which is the argument rounded up when the
  argument is at most \<open>2^64 - 4\<close>.
\<close>

theorem clocktime_of_expression:
  "(\<exists>v e. gst_validate_utils_parse_expression A vf expr = Some (v, e) \<and>
          (e \<noteq> None \<longrightarrow> v = of_int64 A (- 1))) \<and>
   (structures scenario (addr action) fieldname = Some (G_TYPE_STRING tmpvalue) \<longrightarrow>
    replace_variables_in_string A scenario tmpvalue = (Inr strval, scenario') \<longrightarrow>
    gst_validate_utils_parse_expression A (set_variable_func scenario') strval = Some (val, error) \<longrightarrow>
    gst_validate_action_get_clocktime A scenario action fieldname =
      Some (Inr (if error \<noteq> None then (0, GST_CLOCK_TIME_NONE, scenario')
                 else (let t = (if d_eq A val (of_int64 A (- 1)) then GST_CLOCK_TIME_NONE
                                else GST_ROUND_UP_4
                                       (to_guint64 A (d_mul A val (of_int64 A GST_SECOND))))
                       in (1, t, scenario' \<lparr>structures := (structures scenario')
                             (addr action := (structures scenario' (addr action))
                                (fieldname \<mapsto> G_TYPE_UINT64 t))\<rparr>))))) \<and>
   (structures scenario (addr action) fieldname = Some (G_TYPE_DOUBLE d) \<longrightarrow>
    gst_validate_action_get_clocktime A scenario action fieldname =
      Some (Inr (1, if d_eq A d (of_int64 A (- 1)) then GST_CLOCK_TIME_NONE
                    else GST_ROUND_UP_4 (to_guint64 A (d_mul A d (of_int64 A GST_SECOND))),
                 scenario))) \<and>
   (structures scenario (addr action) fieldname = None \<longrightarrow>
    gst_validate_action_get_clocktime A scenario action fieldname =
      Some (Inr (- 1, GST_CLOCK_TIME_NONE, scenario))) \<and>
   GST_ROUND_UP_4 x AND 3 = 0 \<and>
   unat (GST_ROUND_UP_4 x) = 4 * (((unat x + 3) mod 2 ^ 64) div 4) \<and>
   (unat x \<le> 2 ^ 64 - 4 \<longrightarrow>
      unat x \<le> unat (GST_ROUND_UP_4 x) \<and> unat (GST_ROUND_UP_4 x) < unat x + 4)"
proof (intro conjI impI)
  assume "structures scenario (addr action) fieldname = Some (G_TYPE_DOUBLE d)"
  then show "gst_validate_action_get_clocktime A scenario action fieldname =
      Some (Inr (1, if d_eq A d (of_int64 A (- 1)) then GST_CLOCK_TIME_NONE
                    else GST_ROUND_UP_4 (to_guint64 A (d_mul A d (of_int64 A GST_SECOND))),
                 scenario))"
    by (simp add: gst_validate_action_get_clocktime_def gst_validate_utils_get_clocktime_def)
next
  assume "structures scenario (addr action) fieldname = None"
  then show "gst_validate_action_get_clocktime A scenario action fieldname =
      Some (Inr (- 1, GST_CLOCK_TIME_NONE, scenario))"
    by (simp add: gst_validate_action_get_clocktime_def gst_validate_utils_get_clocktime_def
        gst_structure_get_string_def)
next
  show "\<exists>v e. gst_validate_utils_parse_expression A vf expr = Some (v, e) \<and>
          (e \<noteq> None \<longrightarrow> v = of_int64 A (- 1))"
    by (rule parse_expression_error)
  show "GST_ROUND_UP_4 x AND 3 = 0"
    by (rule GST_ROUND_UP_4_multiple)
  show "unat (GST_ROUND_UP_4 x) = 4 * (((unat x + 3) mod 2 ^ 64) div 4)"
    by (rule GST_ROUND_UP_4_unat)
next
  assume "unat x \<le> 2 ^ 64 - 4"
  then show "unat x \<le> unat (GST_ROUND_UP_4 x)" and "unat (GST_ROUND_UP_4 x) < unat x + 4"
    using GST_ROUND_UP_4_up [of x] by simp_all
next
  assume "structures scenario (addr action) fieldname = Some (G_TYPE_STRING tmpvalue)"
    and "replace_variables_in_string A scenario tmpvalue = (Inr strval, scenario')"
    and "gst_validate_utils_parse_expression A (set_variable_func scenario') strval = Some (val, error)"
  then show "gst_validate_action_get_clocktime A scenario action fieldname =
      Some (Inr (if error \<noteq> None then (0, GST_CLOCK_TIME_NONE, scenario')
                 else (let t = (if d_eq A val (of_int64 A (- 1)) then GST_CLOCK_TIME_NONE
                                else GST_ROUND_UP_4
                                       (to_guint64 A (d_mul A val (of_int64 A GST_SECOND))))
                       in (1, t, scenario' \<lparr>structures := (structures scenario')
                             (addr action := (structures scenario' (addr action))
                                (fieldname \<mapsto> G_TYPE_UINT64 t))\<rparr>))))"
    by (rule get_clocktime_string)
qed

lemma real_ops_to_guint64: "to_guint64 real_ops = (\<lambda>x. word_of_int \<lfloor>x\<rfloor>)"
  by (simp add: real_ops_def)

lemma replace_variables_text:
  "CHR ''$'' \<notin> set s \<Longrightarrow>
   replace_variables_in_string A scenario s = (Inr s, update_well_known_vars A scenario)"
  using matched_variables_text [of s "[]"]
  by (simp add: replace_variables_in_string_def Let_def)

lemma structures_well_known_vars:
  "structures (update_well_known_vars A scenario) = structures scenario"
  by (simp add: update_well_known_vars_def Let_def split: option.splits)

theorem clocktime_of_expression_witness:
  "gst_validate_utils_parse_expression real_ops no_vars ''1<2''
     = Some (- 1, Some Failed_to_reach_end) \<and>
   gst_validate_utils_parse_expression real_ops no_vars ''0-1'' = Some (- 1, None) \<and>
   (\<exists>s. gst_validate_action_get_clocktime real_ops
          (example_scenario \<lparr>structures := (\<lambda>a. [''playback-time'' \<mapsto> G_TYPE_STRING ''0-1''])\<rparr>)
          example_action ''playback-time'' = Some (Inr (1, GST_CLOCK_TIME_NONE, s)) \<and>
        structures s 1 ''playback-time'' = Some (G_TYPE_UINT64 GST_CLOCK_TIME_NONE)) \<and>
   (\<exists>s. gst_validate_action_get_clocktime real_ops
          (example_scenario \<lparr>structures := (\<lambda>a. [''playback-time'' \<mapsto> G_TYPE_STRING ''1.5''])\<rparr>)
          example_action ''playback-time'' = Some (Inr (1, 1500000000, s)) \<and>
        structures s 1 ''playback-time'' = Some (G_TYPE_UINT64 1500000000)) \<and>
   (\<exists>s. gst_validate_action_get_clocktime real_ops
          (example_scenario \<lparr>structures := (\<lambda>a. [''playback-time'' \<mapsto> G_TYPE_STRING ''0.000000001''])\<rparr>)
          example_action ''playback-time'' = Some (Inr (1, 4, s)) \<and>
        structures s 1 ''playback-time'' = Some (G_TYPE_UINT64 4)) \<and>
   (\<exists>s. gst_validate_action_get_clocktime real_ops
          (example_scenario \<lparr>structures := (\<lambda>a. [''playback-time'' \<mapsto> G_TYPE_STRING ''1<2''])\<rparr>)
          example_action ''playback-time'' = Some (Inr (0, GST_CLOCK_TIME_NONE, s)) \<and>
        structures s 1 ''playback-time'' = Some (G_TYPE_STRING ''1<2'')) \<and>
   gst_validate_action_get_clocktime real_ops
     (example_scenario \<lparr>structures := (\<lambda>a. [''playback-time'' \<mapsto> G_TYPE_DOUBLE (- 1)])\<rparr>)
     example_action ''playback-time''
     = Some (Inr (1, GST_CLOCK_TIME_NONE,
         example_scenario \<lparr>structures := (\<lambda>a. [''playback-time'' \<mapsto> G_TYPE_DOUBLE (- 1)])\<rparr>)) \<and>
   gst_validate_action_get_clocktime real_ops
     (example_scenario \<lparr>structures := (\<lambda>a. [''playback-time'' \<mapsto> G_TYPE_DOUBLE 2.5])\<rparr>)
     example_action ''playback-time''
     = Some (Inr (1, 2500000000,
         example_scenario \<lparr>structures := (\<lambda>a. [''playback-time'' \<mapsto> G_TYPE_DOUBLE 2.5])\<rparr>)) \<and>
   gst_validate_action_get_clocktime real_ops example_scenario example_action ''playback-time''
     = Some (Inr (- 1, GST_CLOCK_TIME_NONE, example_scenario)) \<and>
   GST_ROUND_UP_4 5 = 8 \<and> GST_ROUND_UP_4 8 = 8 \<and> GST_ROUND_UP_4 (- 2) = 0"
proof -
  note defs = real_ops_sel real_ops_to_guint64 GST_SECOND_def GST_ROUND_UP_4_def
    GST_CLOCK_TIME_NONE_def example_action_def structures_well_known_vars
  have e: "gst_validate_utils_parse_expression real_ops no_vars ''1<2''
             = Some (- 1, Some Failed_to_reach_end)"
  proof -
    have "reader 14 real_ops no_vars READ_EXPR (filter (\<lambda>c. c \<noteq> CHR '' '') ''1<2'' @ [NUL])
            = Some (Inr (1, ''<2'' @ [NUL]))"
      by (simp add: eval_simps)
    from restI [OF this] show ?thesis by (simp add: real_ops_sel)
  qed
  have m: "gst_validate_utils_parse_expression real_ops no_vars ''0-1'' = Some (- 1, None)"
    by (rule valI [where n = 14]) (simp add: eval_simps)
  have 0: "\<exists>v e. gst_validate_utils_parse_expression real_ops no_vars ''1<2'' = Some (v, e) \<and>
             (e \<noteq> None \<longrightarrow> v = - 1)"
    using clocktime_of_expression [where A = real_ops and vf = no_vars and expr = "''1<2''",
        THEN conjunct1]
    by (simp add: real_ops_sel)
  have 1: "\<exists>s. gst_validate_action_get_clocktime real_ops
          (example_scenario \<lparr>structures := (\<lambda>a. [''playback-time'' \<mapsto> G_TYPE_STRING ''0-1''])\<rparr>)
          example_action ''playback-time'' = Some (Inr (1, GST_CLOCK_TIME_NONE, s)) \<and>
        structures s 1 ''playback-time'' = Some (G_TYPE_UINT64 GST_CLOCK_TIME_NONE)"
  proof -
    have "gst_validate_utils_parse_expression real_ops vf ''0-1'' = Some (- 1, None)" for vf
      by (rule valI [where n = 14]) (simp add: eval_simps)
    with clocktime_of_expression [where A = real_ops and action = example_action
        and fieldname = "''playback-time''" and tmpvalue = "''0-1''" and strval = "''0-1''"
        and val = "- 1" and error = None
        and scenario = "example_scenario \<lparr>structures := (\<lambda>a. [''playback-time'' \<mapsto> G_TYPE_STRING ''0-1''])\<rparr>"
        and scenario' = "update_well_known_vars real_ops (example_scenario \<lparr>structures := (\<lambda>a. [''playback-time'' \<mapsto> G_TYPE_STRING ''0-1''])\<rparr>)",
        THEN conjunct2, THEN conjunct1]
    show ?thesis by (simp add: replace_variables_text defs Let_def)
  qed
  have 2: "\<exists>s. gst_validate_action_get_clocktime real_ops
          (example_scenario \<lparr>structures := (\<lambda>a. [''playback-time'' \<mapsto> G_TYPE_STRING ''1.5''])\<rparr>)
          example_action ''playback-time'' = Some (Inr (1, 1500000000, s)) \<and>
        structures s 1 ''playback-time'' = Some (G_TYPE_UINT64 1500000000)"
  proof -
    have "gst_validate_utils_parse_expression real_ops vf ''1.5'' = Some (3 / 2, None)" for vf
      by (rule valI [where n = 14]) (simp add: eval_simps)
    with clocktime_of_expression [where A = real_ops and action = example_action
        and fieldname = "''playback-time''" and tmpvalue = "''1.5''" and strval = "''1.5''"
        and val = "3 / 2" and error = None
        and scenario = "example_scenario \<lparr>structures := (\<lambda>a. [''playback-time'' \<mapsto> G_TYPE_STRING ''1.5''])\<rparr>"
        and scenario' = "update_well_known_vars real_ops (example_scenario \<lparr>structures := (\<lambda>a. [''playback-time'' \<mapsto> G_TYPE_STRING ''1.5''])\<rparr>)",
        THEN conjunct2, THEN conjunct1]
    show ?thesis by (simp add: replace_variables_text defs Let_def)
  qed
  have 3: "\<exists>s. gst_validate_action_get_clocktime real_ops
          (example_scenario \<lparr>structures := (\<lambda>a. [''playback-time'' \<mapsto> G_TYPE_STRING ''0.000000001''])\<rparr>)
          example_action ''playback-time'' = Some (Inr (1, 4, s)) \<and>
        structures s 1 ''playback-time'' = Some (G_TYPE_UINT64 4)"
  proof -
    have "gst_validate_utils_parse_expression real_ops vf ''0.000000001''
            = Some (1 / 1000000000, None)" for vf
      by (rule valI [where n = 14]) (simp add: eval_simps)
    with clocktime_of_expression [where A = real_ops and action = example_action
        and fieldname = "''playback-time''" and tmpvalue = "''0.000000001''"
        and strval = "''0.000000001''" and val = "1 / 1000000000" and error = None
        and scenario = "example_scenario \<lparr>structures := (\<lambda>a. [''playback-time'' \<mapsto> G_TYPE_STRING ''0.000000001''])\<rparr>"
        and scenario' = "update_well_known_vars real_ops (example_scenario \<lparr>structures := (\<lambda>a. [''playback-time'' \<mapsto> G_TYPE_STRING ''0.000000001''])\<rparr>)",
        THEN conjunct2, THEN conjunct1]
    show ?thesis by (simp add: replace_variables_text defs Let_def)
  qed
  have 4: "\<exists>s. gst_validate_action_get_clocktime real_ops
          (example_scenario \<lparr>structures := (\<lambda>a. [''playback-time'' \<mapsto> G_TYPE_STRING ''1<2''])\<rparr>)
          example_action ''playback-time'' = Some (Inr (0, GST_CLOCK_TIME_NONE, s)) \<and>
        structures s 1 ''playback-time'' = Some (G_TYPE_STRING ''1<2'')"
  proof -
    have "reader 14 real_ops vf READ_EXPR (filter (\<lambda>c. c \<noteq> CHR '' '') ''1<2'' @ [NUL])
            = Some (Inr (1, ''<2'' @ [NUL]))" for vf
      by (simp add: eval_simps)
    from restI [OF this]
    have "gst_validate_utils_parse_expression real_ops vf ''1<2''
            = Some (- 1, Some Failed_to_reach_end)" for vf
      by (simp add: real_ops_sel)
    with clocktime_of_expression [where A = real_ops and action = example_action
        and fieldname = "''playback-time''" and tmpvalue = "''1<2''"
        and strval = "''1<2''" and val = "- 1" and error = "Some Failed_to_reach_end"
        and scenario = "example_scenario \<lparr>structures := (\<lambda>a. [''playback-time'' \<mapsto> G_TYPE_STRING ''1<2''])\<rparr>"
        and scenario' = "update_well_known_vars real_ops (example_scenario \<lparr>structures := (\<lambda>a. [''playback-time'' \<mapsto> G_TYPE_STRING ''1<2''])\<rparr>)",
        THEN conjunct2, THEN conjunct1]
    show ?thesis by (simp add: replace_variables_text defs Let_def)
  qed
  have 5: "gst_validate_action_get_clocktime real_ops
     (example_scenario \<lparr>structures := (\<lambda>a. [''playback-time'' \<mapsto> G_TYPE_DOUBLE (- 1)])\<rparr>)
     example_action ''playback-time''
     = Some (Inr (1, GST_CLOCK_TIME_NONE,
         example_scenario \<lparr>structures := (\<lambda>a. [''playback-time'' \<mapsto> G_TYPE_DOUBLE (- 1)])\<rparr>))"
    using clocktime_of_expression [where A = real_ops and action = example_action
        and fieldname = "''playback-time''" and d = "- 1"
        and scenario = "example_scenario \<lparr>structures := (\<lambda>a. [''playback-time'' \<mapsto> G_TYPE_DOUBLE (- 1)])\<rparr>",
        THEN conjunct2, THEN conjunct2, THEN conjunct1]
    by (simp add: defs)
  have 6: "gst_validate_action_get_clocktime real_ops
     (example_scenario \<lparr>structures := (\<lambda>a. [''playback-time'' \<mapsto> G_TYPE_DOUBLE 2.5])\<rparr>)
     example_action ''playback-time''
     = Some (Inr (1, 2500000000,
         example_scenario \<lparr>structures := (\<lambda>a. [''playback-time'' \<mapsto> G_TYPE_DOUBLE 2.5])\<rparr>))"
    using clocktime_of_expression [where A = real_ops and action = example_action
        and fieldname = "''playback-time''" and d = "2.5"
        and scenario = "example_scenario \<lparr>structures := (\<lambda>a. [''playback-time'' \<mapsto> G_TYPE_DOUBLE 2.5])\<rparr>",
        THEN conjunct2, THEN conjunct2, THEN conjunct1]
    by (simp add: defs)
  have 7: "gst_validate_action_get_clocktime real_ops example_scenario example_action ''playback-time''
     = Some (Inr (- 1, GST_CLOCK_TIME_NONE, example_scenario))"
    using clocktime_of_expression [where A = real_ops and action = example_action
        and fieldname = "''playback-time''" and scenario = example_scenario,
        THEN conjunct2, THEN conjunct2, THEN conjunct2, THEN conjunct1]
    by (simp add: defs example_scenario_def)
  have 8: "GST_ROUND_UP_4 5 = 8 \<and> GST_ROUND_UP_4 8 = 8 \<and> GST_ROUND_UP_4 (- 2) = 0"
    by (simp add: GST_ROUND_UP_4_def)
  from e m 0 1 2 3 4 5 6 7 8 show ?thesis by simp
qed

end
